theory Spec2Isabelle
  imports Main "HOL-Library.Sublist"
begin

text \<open>
  A model of the search index of the PII search proof of concept: the key derivation
  shared by the indexers and the search API, the Redis backend
  (\<open>field-aware-redis-indexer.js\<close>), the relational backend
  (\<open>pii-db-search-indexer.js\<close>, \<open>pii-db-search-api.js\<close>, table \<open>pii_search_index\<close>), and
  the properties the specification states of them.  Definitions come first, in the order
  of the sources; lemmas and theorems follow.
\<close>

section \<open>JavaScript strings\<close>

text \<open>
  A JavaScript string is a sequence of UTF-16 code units; \<open>length\<close> and \<open>slice\<close> count
  code units, the string iterator \<open>[...s]\<close> yields code points.  Code units are natural
  numbers here (a real one is below 65536).
\<close>

type_synonym js_string = "nat list"

definition utf16 :: "string \<Rightarrow> js_string" where
  \<comment> \<open>the code units of an ASCII literal of the source\<close>
  "utf16 s = map of_char s"

definition isHighSurrogate :: "nat \<Rightarrow> bool" where
  "isHighSurrogate c = (55296 \<le> c \<and> c \<le> 56319)"

definition isLowSurrogate :: "nat \<Rightarrow> bool" where
  "isLowSurrogate c = (56320 \<le> c \<and> c \<le> 57343)"

fun codePoints :: "js_string \<Rightarrow> js_string list" where
  \<comment> \<open>\<open>[...s]\<close>: a high surrogate followed by a low one is one element\<close>
  "codePoints [] = []"
| "codePoints [c] = [[c]]"
| "codePoints (c # d # cs) =
     (if isHighSurrogate c \<and> isLowSurrogate d then [c, d] # codePoints cs
      else [c] # codePoints (d # cs))"

definition reverseCodePoints :: "js_string \<Rightarrow> js_string" where
  \<comment> \<open>\<open>[...n].reverse().join('')\<close>\<close>
  "reverseCodePoints n = concat (rev (codePoints n))"

definition slice :: "js_string \<Rightarrow> nat \<Rightarrow> nat \<Rightarrow> js_string" where
  \<comment> \<open>\<open>s.slice(i, j)\<close> for non-negative \<open>i\<close>, \<open>j\<close>; both ends are clamped to the length\<close>
  "slice s i j = take (j - i) (drop i s)"

definition isWhiteSpace :: "nat \<Rightarrow> bool" where
  \<comment> \<open>WhiteSpace and LineTerminator of ECMAScript, what \<open>trim\<close> strips\<close>
  "isWhiteSpace c =
     ((9 \<le> c \<and> c \<le> 13) \<or> c = 32 \<or> c = 160 \<or> c = 5760 \<or> (8192 \<le> c \<and> c \<le> 8202)
      \<or> c = 8232 \<or> c = 8233 \<or> c = 8239 \<or> c = 8287 \<or> c = 12288 \<or> c = 65279)"

definition trim :: "js_string \<Rightarrow> js_string" where
  "trim s = rev (dropWhile isWhiteSpace (rev (dropWhile isWhiteSpace s)))"

fun decimal :: "nat \<Rightarrow> js_string" where
  \<comment> \<open>the digits a template literal prints for a non-negative integer\<close>
  "decimal n = (if n < 10 then [48 + n] else decimal (n div 10) @ [48 + n mod 10])"

declare decimal.simps [simp del]

text \<open>
  Unicode normalisation, the case mappings and HMAC-SHA256 belong to the JavaScript
  runtime, not to the repository.  They are parameters of the model, so that every
  theorem below holds whatever these four functions compute.
\<close>

record js_runtime =
  normalizeNFKC :: "js_string \<Rightarrow> js_string"
  toLowerCase :: "js_string \<Rightarrow> js_string"
  toUpperCase :: "js_string \<Rightarrow> js_string"
  hmacSha256Base64url :: "js_string \<Rightarrow> js_string \<Rightarrow> js_string"


section \<open>Key derivation, shared by the three classes\<close>

text \<open>
  \<open>FieldAwareRedisIndexer\<close>, \<open>PIIDatabaseSearchIndexer\<close> and \<open>PIIDatabaseSearchAPI\<close>
  carry the same \<open>normalize\<close>, \<open>H\<close>, \<open>getFieldAlias\<close> and field map; the first and the
  third the same \<open>keysFor\<close>, the first and the second the same \<open>generateAllIndexKeys\<close>.
\<close>

definition normalize :: "js_runtime \<Rightarrow> js_string \<Rightarrow> js_string" where
  "normalize rt s = trim (toLowerCase rt (normalizeNFKC rt s))"

definition H :: "js_runtime \<Rightarrow> js_string \<Rightarrow> js_string \<Rightarrow> js_string" where
  "H rt secret s = hmacSha256Base64url rt secret s"

definition fieldMap :: "(js_string \<times> js_string) list" where
  "fieldMap =
     [(utf16 ''FIRST_NAME'', utf16 ''fn''),
      (utf16 ''LAST_NAME'', utf16 ''ln''),
      (utf16 ''MIDDLE_NAME'', utf16 ''mn''),
      (utf16 ''FULL_NAME'', utf16 ''name''),
      (utf16 ''EMAIL'', utf16 ''email''),
      (utf16 ''MOBILE_NUMBER'', utf16 ''phone''),
      (utf16 ''DATE_OF_BIRTH'', utf16 ''dob''),
      (utf16 ''ADDRESS'', utf16 ''addr''),
      (utf16 ''COUNTRY'', utf16 ''country''),
      (utf16 ''CITY'', utf16 ''city''),
      (utf16 ''PAN_CARD'', utf16 ''pan''),
      (utf16 ''PASSPORT_NUMBER'', utf16 ''passport'')]"

definition getFieldAlias :: "js_runtime \<Rightarrow> js_string \<Rightarrow> js_string" where
  \<comment> \<open>\<open>this.fieldMap[fieldName.toUpperCase()] || fieldName.toLowerCase()\<close>; the properties an
      object literal inherits have lower-case letters in their names, so an upper-cased
      name finds the twelve entries only\<close>
  "getFieldAlias rt fieldName =
     (case map_of fieldMap (toUpperCase rt fieldName) of
        Some a \<Rightarrow> a
      | None \<Rightarrow> toLowerCase rt fieldName)"

definition idxKey :: "js_runtime \<Rightarrow> js_string \<Rightarrow> js_string \<Rightarrow> js_string \<Rightarrow> js_string \<Rightarrow> js_string" where
  \<comment> \<open>the template literal \<open>idx:${field}:tag:${this.H(`${field}|${fragment}`)}\<close>\<close>
  "idxKey rt secret field tag fragment =
     utf16 ''idx:'' @ field @ utf16 '':'' @ tag @ utf16 '':'' @ H rt secret (field @ utf16 ''|'' @ fragment)"

definition gramTag :: "nat \<Rightarrow> js_string" where
  \<comment> \<open>\<open>g${k}\<close>\<close>
  "gramTag k = utf16 ''g'' @ decimal k"

definition keysFor :: "js_runtime \<Rightarrow> js_string \<Rightarrow> js_string \<Rightarrow> js_string \<Rightarrow> js_string \<Rightarrow> nat \<Rightarrow> js_string list" where
  "keysFor rt secret field op q k =
     (let n = normalize rt q in
      if op = utf16 ''eq'' then [idxKey rt secret field (utf16 ''eq'') n]
      else if op = utf16 ''startsWith'' then [idxKey rt secret field (utf16 ''pre'') n]
      else if op = utf16 ''endsWith'' then
        (let r = reverseCodePoints n in [idxKey rt secret field (utf16 ''suf'') r])
      else if length n < k then []
      else
        (let grams = map (\<lambda>i. slice n i (i + k)) [0 ..< length n - k + 1]
         in map (\<lambda>g. idxKey rt secret field (gramTag k) g) grams))"

definition generateAllIndexKeys :: "js_runtime \<Rightarrow> js_string \<Rightarrow> js_string \<Rightarrow> js_string \<Rightarrow> nat \<Rightarrow> js_string list" where
  "generateAllIndexKeys rt secret field val k =
     (let n = normalize rt val;
          r = reverseCodePoints n
      in [idxKey rt secret field (utf16 ''eq'') n]
         @ map (\<lambda>i. idxKey rt secret field (utf16 ''pre'') (slice n 0 i)) [1 ..< length n + 1]
         @ map (\<lambda>i. idxKey rt secret field (utf16 ''suf'') (slice r 0 i)) [1 ..< length r + 1]
         @ (if length n \<ge> k
            then map (\<lambda>i. idxKey rt secret field (gramTag k) (slice n i (i + k))) [0 ..< length n - k + 1]
            else []))"


section \<open>The Redis backend: \<open>FieldAwareRedisIndexer\<close>\<close>

text \<open>
  The Redis keyspace holds one set of tokens per key; a key that is absent is the empty
  set (\<open>SMEMBERS\<close> and \<open>SINTER\<close> read it so, and Redis drops a set that becomes empty).
\<close>

type_synonym redis = "js_string \<Rightarrow> js_string set"

definition sAdd :: "js_string \<Rightarrow> js_string \<Rightarrow> redis \<Rightarrow> redis" where
  "sAdd key member st = st(key := insert member (st key))"

definition sMembers :: "redis \<Rightarrow> js_string \<Rightarrow> js_string set" where
  "sMembers st key = st key"

definition sInter :: "redis \<Rightarrow> js_string list \<Rightarrow> js_string set" where
  "sInter st keys = (case keys of [] \<Rightarrow> {} | key # rest \<Rightarrow> fold (\<lambda>key' acc. acc \<inter> st key') rest (st key))"

record index_result =
  res_indexed :: nat
  res_field :: js_string
  res_alias :: js_string

definition redis_indexFieldValue ::
  "js_runtime \<Rightarrow> js_string \<Rightarrow> js_string \<Rightarrow> js_string \<Rightarrow> js_string \<Rightarrow> nat \<Rightarrow> redis \<Rightarrow> index_result \<times> redis" where
  \<comment> \<open>the \<open>MULTI\<close> pipeline runs its \<open>SADD\<close>s in order\<close>
  "redis_indexFieldValue rt secret fieldName val token k st =
     (let field = getFieldAlias rt fieldName;
          keys = generateAllIndexKeys rt secret field val k
      in (\<lparr>res_indexed = length keys, res_field = fieldName, res_alias = field\<rparr>,
          fold (\<lambda>key. sAdd key token) keys st))"

definition redis_search ::
  "js_runtime \<Rightarrow> js_string \<Rightarrow> redis \<Rightarrow> js_string \<Rightarrow> js_string \<Rightarrow> js_string \<Rightarrow> nat \<Rightarrow> js_string set" where
  "redis_search rt secret st fieldName op query k =
     (let field = getFieldAlias rt fieldName;
          keys = keysFor rt secret field op query k
      in if length keys = 0 then {}
         else if length keys = 1 then sMembers st (keys ! 0)
         else sInter st keys)"


text \<open>
  The commands that \<open>search\<close> sends to the store.  The method has no \<open>throw\<close> and no
  test of its arguments: the constructor assigns \<open>validFields\<close> and \<open>validOps\<close>, and no
  method reads them.
\<close>

datatype redis_command = SMEMBERS js_string | SINTER "js_string list"

definition redis_search_commands ::
  "js_runtime \<Rightarrow> js_string \<Rightarrow> js_string \<Rightarrow> js_string \<Rightarrow> js_string \<Rightarrow> nat \<Rightarrow> redis_command list" where
  "redis_search_commands rt secret fieldName op query k =
     (let field = getFieldAlias rt fieldName;
          keys = keysFor rt secret field op query k
      in if length keys = 0 then []
         else if length keys = 1 then [SMEMBERS (keys ! 0)]
         else [SINTER keys])"


datatype js_error = TypeError js_string | Error js_string

definition sRem :: "js_string \<Rightarrow> js_string \<Rightarrow> redis \<Rightarrow> redis" where
  "sRem key member st = st(key := st key - {member})"

definition del :: "js_string \<Rightarrow> redis \<Rightarrow> redis" where
  "del key st = st(key := {})"

definition cleanupEmptyKeys :: "js_string list \<Rightarrow> redis \<Rightarrow> redis" where
  \<comment> \<open>\<open>SCARD\<close> is 0 exactly for the empty set\<close>
  "cleanupEmptyKeys keys st = fold (\<lambda>key s. if s key = {} then del key s else s) keys st"

record field_keys =
  fk_eq :: js_string
  fk_pres :: "js_string list"
  fk_sufs :: "js_string list"
  fk_gk :: "js_string list"

type_synonym generateFieldKeys_method = "js_string \<Rightarrow> js_string \<Rightarrow> js_string \<Rightarrow> nat \<Rightarrow> field_keys"

definition removeFieldValue_body ::
  "generateFieldKeys_method option \<Rightarrow> js_string \<Rightarrow> js_string \<Rightarrow> js_string \<Rightarrow> nat \<Rightarrow> redis
     \<Rightarrow> (js_error + bool) \<times> redis" where
  \<comment> \<open>the body of \<open>removeFieldValue\<close>, given what the property \<open>this.generateFieldKeys\<close> holds;
      calling a property that is undefined throws a TypeError, which the \<open>catch\<close> logs and rethrows\<close>
  "removeFieldValue_body method fieldName val token k st =
     (case method of
        None \<Rightarrow> (Inl (TypeError (utf16 ''this.generateFieldKeys is not a function'')), st)
      | Some generateFieldKeys \<Rightarrow>
          (let ks = generateFieldKeys fieldName val token k;
               st1 = sRem (fk_eq ks) token st;
               st2 = fold (\<lambda>key. sRem key token) (fk_pres ks) st1;
               st3 = fold (\<lambda>key. sRem key token) (fk_sufs ks) st2;
               st4 = fold (\<lambda>key. sRem key token) (fk_gk ks) st3;
               st5 = cleanupEmptyKeys (fk_eq ks # fk_pres ks @ fk_sufs ks @ fk_gk ks) st4
           in (Inr True, st5)))"

definition FieldAwareRedisIndexer_generateFieldKeys :: "generateFieldKeys_method option" where
  \<comment> \<open>neither the class nor any other file of the repository defines \<open>generateFieldKeys\<close>\<close>
  "FieldAwareRedisIndexer_generateFieldKeys = None"

definition redis_removeFieldValue ::
  "js_string \<Rightarrow> js_string \<Rightarrow> js_string \<Rightarrow> nat \<Rightarrow> redis \<Rightarrow> (js_error + bool) \<times> redis" where
  "redis_removeFieldValue fieldName val token k st =
     removeFieldValue_body FieldAwareRedisIndexer_generateFieldKeys fieldName val token k st"


section \<open>A runtime for the closed examples\<close>

text \<open>
  On ASCII strings NFKC changes nothing and the case mappings act on the letters A to Z
  and a to z only; \<open>ascii_runtime\<close> computes that.  Its keyed hash is a stand-in, the
  secret followed by the message: the examples hold for every hash function.
\<close>

definition asciiLower :: "nat \<Rightarrow> nat" where
  "asciiLower c = (if 65 \<le> c \<and> c \<le> 90 then c + 32 else c)"

definition asciiUpper :: "nat \<Rightarrow> nat" where
  "asciiUpper c = (if 97 \<le> c \<and> c \<le> 122 then c - 32 else c)"

definition ascii_runtime :: js_runtime where
  "ascii_runtime =
     \<lparr>normalizeNFKC = (\<lambda>s. s),
      toLowerCase = map asciiLower,
      toUpperCase = map asciiUpper,
      hmacSha256Base64url = (\<lambda>secret message. secret @ message)\<rparr>"


section \<open>When a normalised query matches a normalised value\<close>

definition query_matches :: "js_string \<Rightarrow> nat \<Rightarrow> js_string \<Rightarrow> js_string \<Rightarrow> bool" where
  \<comment> \<open>the operator semantics of section 4.4 on normalised strings; a suffix is one of code points,
      as the reversal is\<close>
  "query_matches op K nq nv =
     ((op = utf16 ''eq'' \<and> nq = nv)
      \<or> (op = utf16 ''startsWith'' \<and> nq \<noteq> [] \<and> prefix nq nv)
      \<or> (op = utf16 ''endsWith'' \<and> nq \<noteq> [] \<and> suffix (codePoints nq) (codePoints nv))
      \<or> (op = utf16 ''contains'' \<and> K \<le> length nq \<and> sublist nq nv))"


section \<open>The relational backend: \<open>PIIDatabaseSearchIndexer\<close> and \<open>PIIDatabaseSearchAPI\<close>\<close>

text \<open>
  The table \<open>pii_search_index\<close> is a map from \<open>hmac_key\<close>, its primary key, to the other
  columns.  Timestamps are milliseconds; one clock reading \<open>now\<close> stands for
  \<open>Date.now()\<close> and for the \<open>NOW()\<close> of the statements of one call.  The one database
  error in the model is the one the schema gives rise to, a value that does not fit its
  column: \<open>hmac_key\<close> is \<open>VARCHAR(255)\<close> and \<open>field_type\<close> is \<open>VARCHAR(50)\<close>, while
  \<open>token_set\<close> is \<open>TEXT\<close>.
\<close>

record index_row =
  token_set :: js_string
  field_type :: js_string
  created_at :: int
  retention_until :: int

type_synonym pii_search_index = "js_string \<rightharpoonup> index_row"

text \<open>
  \<open>LIKE\<close> of PostgreSQL: \<open>%\<close> (37) matches any sequence, \<open>_\<close> (95) any one character,
  and a backslash (92) makes the next pattern character literal.  A pattern that ends in
  a lone backslash is an error there; \<open>addTokenToIndex\<close> ends its pattern with \<open>%\<close>, so
  that the case does not arise.
\<close>

fun like_match :: "js_string \<Rightarrow> js_string \<Rightarrow> bool" where
  "like_match [] s = (s = [])"
| "like_match (p # ps) [] = (p = 37 \<and> like_match ps [])"
| "like_match (p # ps) (c # cs) =
     (if p = 37 then like_match ps (c # cs) \<or> like_match (p # ps) cs
      else if p = 95 then like_match ps cs
      else if p = 92 then (case ps of [] \<Rightarrow> False | e # es \<Rightarrow> e = c \<and> like_match es cs)
      else p = c \<and> like_match ps cs)"

definition addTokenToIndex ::
  "js_string \<Rightarrow> js_string \<Rightarrow> js_string \<Rightarrow> int option \<Rightarrow> int \<Rightarrow> pii_search_index \<Rightarrow> pii_search_index" where
  "addTokenToIndex hmacKey opaqueToken fieldType retentionDate now db =
     (let retention = (case retentionDate of Some d \<Rightarrow> d | None \<Rightarrow> now + 365 * 24 * 60 * 60 * 1000)
      in case db hmacKey of
           None \<Rightarrow>
             db(hmacKey \<mapsto> \<lparr>token_set = opaqueToken, field_type = fieldType,
                              created_at = now, retention_until = retention\<rparr>)
         | Some row \<Rightarrow>
             db(hmacKey \<mapsto> row
                \<lparr>token_set :=
                   (if like_match ([37] @ opaqueToken @ [37]) (token_set row)
                    then token_set row
                    else token_set row @ utf16 '','' @ opaqueToken),
                 retention_until := max (retention_until row) retention\<rparr>))"

text \<open>
  The \<open>INSERT\<close> of \<open>addTokenToIndex\<close> assigns its first parameter to \<open>hmac_key\<close> and its
  third to \<open>field_type\<close> before it looks for a conflict.  PostgreSQL counts a
  \<open>VARCHAR(n)\<close> in characters; it refuses a longer value, unless the excess is spaces,
  which it cuts off.  \<open>addTokenToIndex\<close> above is the statement on the assigned values.
  \<open>indexFieldValue\<close> runs its loop in a transaction: on an error it rolls back, so that
  the table is as before the call, and rethrows.
\<close>

definition fitsVarchar :: "nat \<Rightarrow> js_string \<Rightarrow> bool" where
  "fitsVarchar n s = (length (codePoints s) \<le> n)"

definition varchar :: "nat \<Rightarrow> js_string \<Rightarrow> js_error + js_string" where
  "varchar n s =
     (if fitsVarchar n s then Inr s
      else if list_all (\<lambda>ch. ch = [32]) (drop n (codePoints s)) then Inr (concat (take n (codePoints s)))
      else Inl (Error (utf16 ''value too long for type character varying('' @ decimal n @ utf16 '')'')))"

fun db_indexFieldValue_loop ::
  "js_string list \<Rightarrow> js_string \<Rightarrow> js_string \<Rightarrow> int \<Rightarrow> pii_search_index \<Rightarrow> js_error + pii_search_index" where
  \<comment> \<open>\<open>for (const key of keys) await this.addTokenToIndex(key, token, fieldName)\<close>\<close>
  "db_indexFieldValue_loop [] token fieldName now db = Inr db"
| "db_indexFieldValue_loop (key # keys) token fieldName now db =
     (case varchar 255 key of
        Inl e \<Rightarrow> Inl e
      | Inr hmac_key \<Rightarrow>
          (case varchar 50 fieldName of
             Inl e \<Rightarrow> Inl e
           | Inr fieldType \<Rightarrow>
               db_indexFieldValue_loop keys token fieldName now
                 (addTokenToIndex hmac_key token fieldType None now db)))"

definition db_indexFieldValue ::
  "js_runtime \<Rightarrow> js_string \<Rightarrow> js_string \<Rightarrow> js_string \<Rightarrow> js_string \<Rightarrow> int \<Rightarrow> pii_search_index
     \<Rightarrow> (js_error + index_result) \<times> pii_search_index" where
  \<comment> \<open>\<open>BEGIN\<close>, the loop, then \<open>COMMIT\<close> and the answer, or \<open>ROLLBACK\<close> and the error\<close>
  "db_indexFieldValue rt secret fieldName val token now db =
     (let field = getFieldAlias rt fieldName;
          keys = generateAllIndexKeys rt secret field val 3
      in case db_indexFieldValue_loop keys token fieldName now db of
           Inl e \<Rightarrow> (Inl e, db)
         | Inr db' \<Rightarrow> (Inr \<lparr>res_indexed = length keys, res_field = fieldName, res_alias = field\<rparr>, db'))"

text \<open>
  \<open>string_to_array(token_set, ',')\<close>: the pieces between commas, none for the empty string.
\<close>

fun splitOn :: "nat \<Rightarrow> js_string \<Rightarrow> js_string list" where
  "splitOn d [] = [[]]"
| "splitOn d (c # cs) =
     (if c = d then [] # splitOn d cs
      else (case splitOn d cs of [] \<Rightarrow> [[c]] | piece # pieces \<Rightarrow> (c # piece) # pieces))"

definition string_to_array :: "js_string \<Rightarrow> js_string list" where
  "string_to_array s = (if s = [] then [] else splitOn 44 s)"

definition searchTokensInIndex :: "js_string list \<Rightarrow> int \<Rightarrow> pii_search_index \<Rightarrow> js_string set" where
  "searchTokensInIndex keys now db =
     (if length keys = 0 then {}
      else
        (let rows = concat (map (\<lambda>key. case db key of
                                     None \<Rightarrow> []
                                   | Some row \<Rightarrow>
                                       if retention_until row > now
                                       then string_to_array (token_set row) else []) keys)
         in set (filter (\<lambda>token. token \<noteq> []) (map trim rows))))"

definition db_search ::
  "js_runtime \<Rightarrow> js_string \<Rightarrow> pii_search_index \<Rightarrow> int \<Rightarrow> js_string \<Rightarrow> js_string \<Rightarrow> js_string \<Rightarrow> nat
     \<Rightarrow> js_string set" where
  "db_search rt secret db now fieldName op query k =
     (let field = getFieldAlias rt fieldName;
          keys = keysFor rt secret field op query k
      in if length keys = 0 then {}
         else if length keys = 1 then searchTokensInIndex keys now db
         else
           (let tokenSets = map (\<lambda>key. searchTokensInIndex [key] now db) keys
            in case tokenSets of
                 [] \<Rightarrow> {}
               | first # others \<Rightarrow> fold (\<lambda>s intersection. intersection \<inter> s) others first))"


record search_config =
  minResultSize :: int
  maxResults :: int
  minQueryLength :: int

definition default_config :: search_config where
  \<comment> \<open>\<open>parseInt(process.env...) || 5\<close>, \<open>|| 1000\<close>, \<open>|| 2\<close> with the variables unset\<close>
  "default_config = \<lparr>minResultSize = 5, maxResults = 1000, minQueryLength = 2\<rparr>"

record search_response =
  tokens :: "js_string set"
  resultCount :: nat
  anonymizedCount :: nat
  queryType :: js_string
  fieldType :: js_string
  kAnonymityApplied :: bool

definition showInt :: "int \<Rightarrow> js_string" where
  "showInt i = (if i < 0 then utf16 ''-'' @ decimal (nat (- i)) else decimal (nat i))"

definition performSearch ::
  "search_config \<Rightarrow> js_runtime \<Rightarrow> js_string \<Rightarrow> pii_search_index \<Rightarrow> int
     \<Rightarrow> js_string \<Rightarrow> js_string \<Rightarrow> js_string \<Rightarrow> js_error + search_response" where
  \<comment> \<open>a JavaScript array made from a Set has no duplicates: its length is the cardinality;
      \<open>executionTime\<close> is left out\<close>
  "performSearch config rt secret db now query fieldType' queryType' =
     (if query = [] \<or> int (length query) < minQueryLength config
      then Inl (Error (utf16 ''Query must be at least '' @ showInt (minQueryLength config)
                       @ utf16 '' characters long''))
      else
        (let qt = toLowerCase rt queryType';
             operation =
               (if qt = utf16 ''exact'' \<or> qt = utf16 ''equals'' then utf16 ''eq''
                else if qt = utf16 ''starts_with'' \<or> qt = utf16 ''startswith'' then utf16 ''startsWith''
                else if qt = utf16 ''ends_with'' \<or> qt = utf16 ''endswith'' then utf16 ''endsWith''
                else utf16 ''contains'');
             found = db_search rt secret db now fieldType' operation query 3;
             count = card found;
             anonymizedTokens = (if int count \<ge> minResultSize config then found else {})
         in Inr \<lparr>tokens = anonymizedTokens,
                  resultCount = count,
                  anonymizedCount = card anonymizedTokens,
                  queryType = queryType',
                  fieldType = fieldType',
                  kAnonymityApplied = (count > 0 \<and> card anonymizedTokens = 0)\<rparr>))"

record query_condition =
  cond_field :: js_string
  cond_operation :: js_string
  cond_value :: js_string

fun db_conditionResults ::
  "js_runtime \<Rightarrow> js_string \<Rightarrow> pii_search_index \<Rightarrow> int \<Rightarrow> query_condition list
     \<Rightarrow> js_error + js_string set list" where
  \<comment> \<open>the first loop of \<open>executeComplexQuery\<close>; a \<open>throw\<close> ends it\<close>
  "db_conditionResults rt secret db now [] = Inr []"
| "db_conditionResults rt secret db now (condition # conditions) =
     (let operation = toLowerCase rt (cond_operation condition);
          found =
            (if operation = utf16 ''equals''
             then Inr (db_search rt secret db now (cond_field condition) (utf16 ''eq'') (cond_value condition) 3)
             else if operation = utf16 ''startswith''
             then Inr (db_search rt secret db now (cond_field condition) (utf16 ''startsWith'') (cond_value condition) 3)
             else if operation = utf16 ''endswith''
             then Inr (db_search rt secret db now (cond_field condition) (utf16 ''endsWith'') (cond_value condition) 3)
             else if operation = utf16 ''contains''
             then Inr (db_search rt secret db now (cond_field condition) (utf16 ''contains'') (cond_value condition) 3)
             else Inl (Error (utf16 ''Unsupported operation: '' @ cond_operation condition)))
      in case found of
           Inl e \<Rightarrow> Inl e
         | Inr found_tokens \<Rightarrow>
             (case db_conditionResults rt secret db now conditions of
                Inl e \<Rightarrow> Inl e
              | Inr resultSets \<Rightarrow> Inr (found_tokens # resultSets)))"

definition db_executeComplexQuery ::
  "js_runtime \<Rightarrow> js_string \<Rightarrow> pii_search_index \<Rightarrow> int \<Rightarrow> query_condition list \<Rightarrow> js_string
     \<Rightarrow> js_error + js_string set" where
  "db_executeComplexQuery rt secret db now queryConditions operator =
     (case db_conditionResults rt secret db now queryConditions of
        Inl e \<Rightarrow> Inl e
      | Inr resultSets \<Rightarrow>
          (case resultSets of
             [] \<Rightarrow> Inr {}
           | first # others \<Rightarrow>
               Inr (fold (\<lambda>s finalResult.
                            if toUpperCase rt operator = utf16 ''AND'' then finalResult \<inter> s
                            else if toUpperCase rt operator = utf16 ''OR'' then finalResult \<union> s
                            else finalResult)
                      others first)))"


section \<open>ASCII strings, and a runtime that composes one pair\<close>

text \<open>
  The JavaScript runtime leaves an ASCII string unchanged under NFKC and lower-cases it
  letter by letter: \<open>ascii_conformant\<close> says so of a runtime.

  \<open>jcaron_runtime\<close> is the runtime on strings over the four code units J, j, U+030C
  (combining caron) and U+01F0 (j with caron).  Unicode has no capital J with caron, so
  NFKC leaves J followed by U+030C alone and composes j followed by U+030C to U+01F0;
  lower-casing maps J to j and upper-casing maps U+01F0 to J followed by U+030C.
\<close>

definition ascii :: "js_string \<Rightarrow> bool" where
  "ascii s = list_all (\<lambda>c. c < 128) s"

definition ascii_conformant :: "js_runtime \<Rightarrow> bool" where
  "ascii_conformant rt =
     (\<forall>s. ascii s \<longrightarrow> normalizeNFKC rt s = s \<and> toLowerCase rt s = map asciiLower s)"

fun composeJCaron :: "js_string \<Rightarrow> js_string" where
  "composeJCaron [] = []"
| "composeJCaron [c] = [c]"
| "composeJCaron (c # d # cs) =
     (if c = 106 \<and> d = 780 then 496 # composeJCaron cs else c # composeJCaron (d # cs))"

definition upperJCaron :: "js_string \<Rightarrow> js_string" where
  "upperJCaron s = concat (map (\<lambda>c. if c = 496 then [74, 780] else [asciiUpper c]) s)"

definition jcaron_runtime :: js_runtime where
  "jcaron_runtime =
     \<lparr>normalizeNFKC = composeJCaron,
      toLowerCase = map asciiLower,
      toUpperCase = upperJCaron,
      hmacSha256Base64url = (\<lambda>secret message. secret @ message)\<rparr>"


section \<open>Runs of index operations on both backends\<close>












section \<open>The fragment enumeration as the specification words it\<close>

text \<open>
  The table of section 4.4 is worded on the characters of the normalised value \<open>v\<close>:
  its length, its prefixes, its K-character windows, and \<open>rev(v)\<close>, the value with its
  characters in the opposite order.  Below \<open>v\<close> is the list of its characters and every
  notion is the one of lists.  A character outside the Basic Multilingual Plane is two
  code units of the JavaScript string, a surrogate pair; \<open>hasSurrogatePair\<close> says that a
  string has one.
\<close>

fun hasSurrogatePair :: "js_string \<Rightarrow> bool" where
  "hasSurrogatePair (c # d # cs) =
     ((55296 \<le> c \<and> c \<le> 56319 \<and> 56320 \<le> d \<and> d \<le> 57343) \<or> hasSurrogatePair (d # cs))"
| "hasSurrogatePair cs = False"

definition spec_windows :: "nat \<Rightarrow> 'a list \<Rightarrow> 'a list list" where
  \<comment> \<open>every K-character window \<open>v[i..i+K]\<close> for \<open>0 \<le> i \<le> |v| - K\<close>; none if \<open>|v| < K\<close>\<close>
  "spec_windows K v = (if length v < K then [] else map (\<lambda>i. take K (drop i v)) [0 ..< Suc (length v - K)])"

definition spec_fragments :: "nat \<Rightarrow> 'a list \<Rightarrow> (js_string \<times> 'a list) list" where
  \<comment> \<open>the table of section 4.4: operator tag and fragment\<close>
  "spec_fragments K v =
     (utf16 ''eq'', v)
     # map (Pair (utf16 ''pre'')) (tl (prefixes v))
     @ map (Pair (utf16 ''suf'')) (tl (prefixes (rev v)))
     @ map (Pair (utf16 ''g'' @ decimal K)) (spec_windows K v)"


section \<open>Lemmas on strings\<close>

lemma concat_codePoints: "concat (codePoints s) = s"
  by (induction s rule: codePoints.induct) simp_all

lemma length_reverseCodePoints: "length (reverseCodePoints s) = length s"
proof -
  have "length (concat (rev (codePoints s))) = length (concat (codePoints s))"
    by (simp add: length_concat rev_map [symmetric] sum_list_rev)
  then show ?thesis
    by (simp add: reverseCodePoints_def concat_codePoints)
qed

lemma tl_prefixes_take: "tl (prefixes v) = map (\<lambda>i. take i v) [1 ..< length v + 1]"
proof (induction v rule: rev_induct)
  case Nil
  show ?case by simp
next
  case (snoc x xs)
  have "tl (prefixes (xs @ [x])) = tl (prefixes xs) @ [xs @ [x]]"
    by (cases xs) simp_all
  also have "\<dots> = map (\<lambda>i. take i xs) [1 ..< length xs + 1] @ [xs @ [x]]"
    by (simp add: snoc.IH)
  also have "map (\<lambda>i. take i xs) [1 ..< length xs + 1] = map (\<lambda>i. take i (xs @ [x])) [1 ..< length xs + 1]"
    by (rule map_cong) auto
  finally show ?case by simp
qed

lemma length_key_list:
  "length ([e] @ map f [1 ..< m + 1] @ map g [1 ..< m + 1] @ (if K \<le> m then map h [0 ..< m - K + 1] else []))
   = 1 + 2 * m + (if K \<le> m then m - K + 1 else 0)"
  by (simp; arith)

lemma fold_sAdd:
  "fold (\<lambda>key. sAdd key t) keys st = (\<lambda>key. if key \<in> set keys then insert t (st key) else st key)"
proof (induction keys arbitrary: st)
  case Nil
  show ?case by simp
next
  case (Cons a keys)
  have "fold (\<lambda>key. sAdd key t) (a # keys) st = fold (\<lambda>key. sAdd key t) keys (sAdd a t st)"
    by simp
  also have "\<dots> = (\<lambda>key. if key \<in> set keys then insert t (sAdd a t st key) else sAdd a t st key)"
    by (rule Cons.IH)
  also have "\<dots> = (\<lambda>key. if key \<in> set (a # keys) then insert t (st key) else st key)"
    by (rule ext) (simp add: sAdd_def)
  finally show ?case .
qed


section \<open>Evaluation of the closed examples\<close>

lemmas ascii_eval = utf16_def ascii_runtime_def asciiLower_def asciiUpper_def normalize_def trim_def
  isWhiteSpace_def H_def idxKey_def gramTag_def decimal.simps slice_def reverseCodePoints_def
  isHighSurrogate_def isLowSurrogate_def getFieldAlias_def fieldMap_def

lemma normalize_a_b_c: "normalize ascii_runtime (utf16 ''a b c'') = utf16 ''a b c''"
  by (simp add: ascii_eval)

lemma normalize_padded_b: "normalize ascii_runtime (utf16 '' b '') = utf16 ''b''"
  by (simp add: ascii_eval)


section \<open>Fragment enumeration\<close>

lemma codePoints_units: "\<not> hasSurrogatePair s \<Longrightarrow> codePoints s = map (\<lambda>c. [c]) s"
  by (induction s rule: codePoints.induct) (simp_all add: isHighSurrogate_def isLowSurrogate_def)

lemma reverseCodePoints_rev: "\<not> hasSurrogatePair s \<Longrightarrow> reverseCodePoints s = rev s"
proof -
  have c: "concat (map (\<lambda>c. [c]) xs) = xs" for xs :: js_string
    by (induction xs) simp_all
  have "concat (rev (map (\<lambda>c. [c]) s)) = concat (map (\<lambda>c. [c]) (rev s))"
    by (simp only: rev_map)
  then have "concat (rev (map (\<lambda>c. [c]) s)) = rev s"
    by (simp only: c)
  moreover assume "\<not> hasSurrogatePair s"
  ultimately show ?thesis
    by (simp add: reverseCodePoints_def codePoints_units)
qed

text \<open>
  Claim C8, as stated: the enumerator emits the fragments of the table, counted in
  characters.  It fails on a value with a character outside the Basic Multilingual
  Plane, because the enumerator slices and counts UTF-16 code units.  The value is the
  letter a followed by U+1F600, which normalisation leaves as it is: two characters,
  three code units.  The table has 1 + 2 * 2 + 0 = 5 fragments for it and no window;
  the enumerator emits 8 keys, one of them for the window of three code units and one
  for the fragment made of the first half of U+1F600 alone.
\<close>

theorem generateAllIndexKeys_splits_character_counterexample:
  "normalize ascii_runtime [97, 55357, 56832] = [97, 55357, 56832]
   \<and> length (codePoints (normalize ascii_runtime [97, 55357, 56832])) = 2
   \<and> length (generateAllIndexKeys ascii_runtime (utf16 ''k'') (utf16 ''fn'') [97, 55357, 56832] 3) = 8
   \<and> int (length (generateAllIndexKeys ascii_runtime (utf16 ''k'') (utf16 ''fn'') [97, 55357, 56832] 3))
       \<noteq> 1 + 2 * int (length (codePoints (normalize ascii_runtime [97, 55357, 56832])))
           + max 0 (int (length (codePoints (normalize ascii_runtime [97, 55357, 56832]))) - 3 + 1)
   \<and> idxKey ascii_runtime (utf16 ''k'') (utf16 ''fn'') (utf16 ''g3'') [97, 55357, 56832]
       \<in> set (generateAllIndexKeys ascii_runtime (utf16 ''k'') (utf16 ''fn'') [97, 55357, 56832] 3)
   \<and> idxKey ascii_runtime (utf16 ''k'') (utf16 ''fn'') (utf16 ''suf'') [55357]
       \<in> set (generateAllIndexKeys ascii_runtime (utf16 ''k'') (utf16 ''fn'') [97, 55357, 56832] 3)"
  by (simp add: generateAllIndexKeys_def Let_def ascii_eval)


text \<open>
  Claim C8, amended: for every field alias and every value whose normalised form \<open>v\<close>
  has no surrogate pair, so that its characters are its code units, the enumerator
  derives one key per fragment of the table, in the table's order: the eq fragment \<open>v\<close>,
  every non-empty prefix of \<open>v\<close>, every non-empty prefix of \<open>v\<close> reversed, and every
  K-character window of \<open>v\<close> (none when \<open>v\<close> is shorter than K).  The number of keys is
  \<open>1 + 2|v| + max(0, |v| - K + 1)\<close>, with \<open>|v|\<close> the number of characters.  This holds
  for every K, so for the K = 3 of both indexers.
\<close>

theorem generateAllIndexKeys_enumerates:
  assumes "\<not> hasSurrogatePair (normalize rt val)"
  shows "generateAllIndexKeys rt secret fld val K =
     map (\<lambda>(tag, fragment). idxKey rt secret fld tag fragment) (spec_fragments K (normalize rt val))
   \<and> length (codePoints (normalize rt val)) = length (normalize rt val)
   \<and> int (length (generateAllIndexKeys rt secret fld val K)) =
       1 + 2 * int (length (normalize rt val)) + max 0 (int (length (normalize rt val)) - int K + 1)"
proof (intro conjI)
  show "generateAllIndexKeys rt secret fld val K =
     map (\<lambda>(tag, fragment). idxKey rt secret fld tag fragment) (spec_fragments K (normalize rt val))"
    by (simp add: generateAllIndexKeys_def spec_fragments_def spec_windows_def tl_prefixes_take
        reverseCodePoints_rev [OF assms] gramTag_def slice_def Let_def comp_def not_less [symmetric])
  show "length (codePoints (normalize rt val)) = length (normalize rt val)"
    by (simp add: codePoints_units [OF assms])
  show "int (length (generateAllIndexKeys rt secret fld val K)) =
       1 + 2 * int (length (normalize rt val)) + max 0 (int (length (normalize rt val)) - int K + 1)"
  proof -
    have "length (generateAllIndexKeys rt secret fld val K) =
        1 + 2 * length (normalize rt val)
        + (if K \<le> length (normalize rt val) then length (normalize rt val) - K + 1 else 0)"
      unfolding generateAllIndexKeys_def Let_def length_reverseCodePoints
      by (rule length_key_list)
    then show ?thesis
      by (cases "K \<le> length (normalize rt val)") (simp_all add: max_def)
  qed
qed

theorem generateAllIndexKeys_enumerates_witness:
  "\<not> hasSurrogatePair (normalize ascii_runtime (utf16 ''Ana''))
   \<and> generateAllIndexKeys ascii_runtime (utf16 ''k'') (utf16 ''fn'') (utf16 ''Ana'') 3
     = map (\<lambda>(tag, fragment). idxKey ascii_runtime (utf16 ''k'') (utf16 ''fn'') tag fragment)
         [(utf16 ''eq'', utf16 ''ana''),
          (utf16 ''pre'', utf16 ''a''), (utf16 ''pre'', utf16 ''an''), (utf16 ''pre'', utf16 ''ana''),
          (utf16 ''suf'', utf16 ''a''), (utf16 ''suf'', utf16 ''an''), (utf16 ''suf'', utf16 ''ana''),
          (utf16 ''g3'', utf16 ''ana'')]
   \<and> length (generateAllIndexKeys ascii_runtime (utf16 ''k'') (utf16 ''fn'') (utf16 ''Ana'') 3) = 8"
proof -
  have n: "normalize ascii_runtime (utf16 ''Ana'') = utf16 ''ana''"
    by (simp add: ascii_eval)
  have h: "\<not> hasSurrogatePair (normalize ascii_runtime (utf16 ''Ana''))"
    unfolding n by (simp add: utf16_def)
  have f: "spec_fragments 3 (utf16 ''ana'') =
         [(utf16 ''eq'', utf16 ''ana''),
          (utf16 ''pre'', utf16 ''a''), (utf16 ''pre'', utf16 ''an''), (utf16 ''pre'', utf16 ''ana''),
          (utf16 ''suf'', utf16 ''a''), (utf16 ''suf'', utf16 ''an''), (utf16 ''suf'', utf16 ''ana''),
          (utf16 ''g3'', utf16 ''ana'')]"
    by (simp add: spec_fragments_def spec_windows_def utf16_def decimal.simps)
  have l: "length (utf16 ''ana'') = 3"
    by (simp add: utf16_def)
  from generateAllIndexKeys_enumerates [OF h, of "utf16 ''k''" "utf16 ''fn''" 3] h
  show ?thesis
    unfolding n f l by simp
qed


section \<open>Re-indexing on the Redis backend\<close>

text \<open>
  Claim C10.  On the Redis backend, indexing the same field value for the same token a
  second time returns the same answer and leaves the store as the first call left it,
  from every store state and also when the enumerator emits a key more than once.
  Posting lists are Redis sets, so a reference is in one at most once.
\<close>

theorem redis_indexFieldValue_idempotent:
  "redis_indexFieldValue rt secret fieldName val token k
      (snd (redis_indexFieldValue rt secret fieldName val token k st))
   = redis_indexFieldValue rt secret fieldName val token k st"
  by (simp add: redis_indexFieldValue_def Let_def fold_sAdd fun_eq_iff)


section \<open>Lemmas on the index keys and the Redis store\<close>

lemma fold_inter: "fold (\<lambda>key acc. acc \<inter> st key) ks A = A \<inter> (\<Inter>key\<in>set ks. st key)"
  by (induction ks arbitrary: A) auto

lemma sInter_Inter: "keys \<noteq> [] \<Longrightarrow> sInter st keys = (\<Inter>key\<in>set keys. st key)"
  by (cases keys) (auto simp: sInter_def fold_inter)

lemma indexed_store:
  "snd (redis_indexFieldValue rt secret fieldName val token k st) =
     (\<lambda>key. if key \<in> set (generateAllIndexKeys rt secret (getFieldAlias rt fieldName) val k)
            then insert token (st key) else st key)"
  by (simp add: redis_indexFieldValue_def Let_def fold_sAdd)

lemma in_key_list:
  "key \<in> set ([e] @ map P [1 ..< m + 1] @ map S [1 ..< m + 1] @ (if k \<le> m then map G [0 ..< m - k + 1] else []))
   \<longleftrightarrow> key = e \<or> (\<exists>i. 1 \<le> i \<and> i \<le> m \<and> key = P i) \<or> (\<exists>i. 1 \<le> i \<and> i \<le> m \<and> key = S i)
       \<or> (\<exists>i. i + k \<le> m \<and> key = G i)"
proof -
  have a: "set [1 ..< m + 1] = {i. 1 \<le> i \<and> i \<le> m}" by auto
  have b: "k \<le> m \<Longrightarrow> set [0 ..< m - k + 1] = {i. i + k \<le> m}" by auto
  show ?thesis
  proof (cases "k \<le> m")
    case True
    then show ?thesis
      unfolding set_append set_map a by (simp only: if_True set_map b) auto
  next
    case False
    then have "\<And>i. \<not> i + k \<le> m" by arith
    with False show ?thesis
      unfolding set_append set_map a by (simp only: if_False) auto
  qed
qed

lemma in_generateAllIndexKeys:
  "key \<in> set (generateAllIndexKeys rt secret f val k) \<longleftrightarrow>
     key = idxKey rt secret f (utf16 ''eq'') (normalize rt val)
     \<or> (\<exists>i. 1 \<le> i \<and> i \<le> length (normalize rt val)
           \<and> key = idxKey rt secret f (utf16 ''pre'') (slice (normalize rt val) 0 i))
     \<or> (\<exists>i. 1 \<le> i \<and> i \<le> length (normalize rt val)
           \<and> key = idxKey rt secret f (utf16 ''suf'') (slice (reverseCodePoints (normalize rt val)) 0 i))
     \<or> (\<exists>i. i + k \<le> length (normalize rt val)
           \<and> key = idxKey rt secret f (gramTag k) (slice (normalize rt val) i (i + k)))"
  unfolding generateAllIndexKeys_def Let_def length_reverseCodePoints
  by (rule in_key_list)

lemma eq_key_indexed:
  "idxKey rt secret f (utf16 ''eq'') (normalize rt val) \<in> set (generateAllIndexKeys rt secret f val k)"
  unfolding in_generateAllIndexKeys by simp

lemma pre_key_indexed:
  assumes "nq \<noteq> []" "prefix nq (normalize rt val)"
  shows "idxKey rt secret f (utf16 ''pre'') nq \<in> set (generateAllIndexKeys rt secret f val k)"
proof -
  from assms obtain zs where nv: "normalize rt val = nq @ zs" by (auto simp: prefix_def)
  have "1 \<le> length nq \<and> length nq \<le> length (normalize rt val)
      \<and> idxKey rt secret f (utf16 ''pre'') nq
        = idxKey rt secret f (utf16 ''pre'') (slice (normalize rt val) 0 (length nq))"
    using assms(1) by (simp add: nv slice_def Suc_le_eq)
  then show ?thesis
    unfolding in_generateAllIndexKeys by blast
qed

lemma reverse_suffix:
  assumes "suffix (codePoints nq) (codePoints nv)"
  shows "prefix (reverseCodePoints nq) (reverseCodePoints nv)"
proof -
  from assms obtain xs where "codePoints nv = xs @ codePoints nq" by (auto simp: suffix_def)
  then show ?thesis by (simp add: reverseCodePoints_def)
qed

lemma suf_key_indexed:
  assumes "nq \<noteq> []" "suffix (codePoints nq) (codePoints (normalize rt val))"
  shows "idxKey rt secret f (utf16 ''suf'') (reverseCodePoints nq) \<in> set (generateAllIndexKeys rt secret f val k)"
proof -
  let ?r = "reverseCodePoints (normalize rt val)"
  from reverse_suffix [OF assms(2)] obtain zs where r: "?r = reverseCodePoints nq @ zs"
    by (auto simp: prefix_def)
  have s: "slice ?r 0 (length nq) = reverseCodePoints nq"
    by (simp add: slice_def r length_reverseCodePoints)
  have "length nq \<le> length (normalize rt val)"
    using arg_cong [OF r, of length] by (simp add: length_reverseCodePoints)
  then have "1 \<le> length nq \<and> length nq \<le> length (normalize rt val)
      \<and> idxKey rt secret f (utf16 ''suf'') (reverseCodePoints nq)
        = idxKey rt secret f (utf16 ''suf'') (slice ?r 0 (length nq))"
    using assms(1) by (simp add: s Suc_le_eq)
  then show ?thesis
    unfolding in_generateAllIndexKeys by blast
qed

lemma gram_key_indexed:
  assumes "sublist nq (normalize rt val)" "i + k \<le> length nq"
  shows "idxKey rt secret f (gramTag k) (slice nq i (i + k)) \<in> set (generateAllIndexKeys rt secret f val k)"
proof -
  let ?nv = "normalize rt val"
  from assms(1) obtain ps ss where nv: "?nv = ps @ nq @ ss" by (auto simp: sublist_def)
  have "length ps + i + k \<le> length ?nv
      \<and> idxKey rt secret f (gramTag k) (slice nq i (i + k))
        = idxKey rt secret f (gramTag k) (slice ?nv (length ps + i) (length ps + i + k))"
    using assms(2) by (simp add: slice_def nv)
  then show ?thesis
    unfolding in_generateAllIndexKeys by blast
qed


lemma keysFor_indexed:
  assumes "query_matches op k (normalize rt q) (normalize rt val)"
  shows "keysFor rt secret f op q k \<noteq> []
     \<and> set (keysFor rt secret f op q k) \<subseteq> set (generateAllIndexKeys rt secret f val k)"
proof -
  let ?nq = "normalize rt q"
  consider (eq) "op = utf16 ''eq''" "?nq = normalize rt val"
    | (pre) "op = utf16 ''startsWith''" "?nq \<noteq> []" "prefix ?nq (normalize rt val)"
    | (suf) "op = utf16 ''endsWith''" "?nq \<noteq> []" "suffix (codePoints ?nq) (codePoints (normalize rt val))"
    | (con) "op = utf16 ''contains''" "k \<le> length ?nq" "sublist ?nq (normalize rt val)"
    using assms unfolding query_matches_def by blast
  then show ?thesis
  proof cases
    case eq
    then show ?thesis
      using eq_key_indexed [of rt secret f val k] by (simp add: keysFor_def)
  next
    case pre
    then show ?thesis
      using pre_key_indexed [of ?nq rt val secret f k] by (simp add: keysFor_def utf16_def)
  next
    case suf
    then show ?thesis
      using suf_key_indexed [of ?nq rt val secret f k] by (simp add: keysFor_def utf16_def)
  next
    case con
    have "idxKey rt secret f (gramTag k) (slice ?nq i (i + k)) \<in> set (generateAllIndexKeys rt secret f val k)"
      if "i < length ?nq - k + 1" for i
      using that con(2) by (intro gram_key_indexed [OF con(3)]) arith
    with con(1,2) show ?thesis
      by (auto simp add: keysFor_def utf16_def Let_def simp del: upt_Suc)
  qed
qed

lemma indexed_value_found:
  assumes "query_matches op k (normalize rt q) (normalize rt val)"
  shows "token \<in> redis_search rt secret
            (snd (redis_indexFieldValue rt secret fieldName val token k st)) fieldName op q k"
proof -
  let ?f = "getFieldAlias rt fieldName"
  let ?keys = "keysFor rt secret ?f op q k"
  let ?st = "snd (redis_indexFieldValue rt secret fieldName val token k st)"
  from keysFor_indexed [OF assms, of secret ?f]
  have ne: "?keys \<noteq> []" and sub: "set ?keys \<subseteq> set (generateAllIndexKeys rt secret ?f val k)"
    by simp_all
  have mem: "token \<in> ?st key" if "key \<in> set ?keys" for key
    using that sub by (auto simp: indexed_store)
  have "token \<in> sMembers ?st (?keys ! 0)"
    using ne mem [of "?keys ! 0"] by (cases ?keys) (simp_all add: sMembers_def)
  moreover have "token \<in> sInter ?st ?keys"
    using mem by (simp add: sInter_Inter [OF ne])
  ultimately show ?thesis
    using ne by (simp add: redis_search_def Let_def)
qed


section \<open>Coverage of the index\<close>

text \<open>
  Claim C2, as stated: a query \<open>q\<close> that is a substring of the normalised value, of
  length at least K, finds the reference.  It fails: \<open>keysFor\<close> normalises the query
  before it measures it, so the substring \<open>" b "\<close> of \<open>"a b c"\<close> is trimmed to one
  character and yields no key.
\<close>

theorem contains_query_counterexample:
  "sublist (utf16 '' b '') (normalize ascii_runtime (utf16 ''a b c''))
   \<and> 3 \<le> length (utf16 '' b '')
   \<and> utf16 ''T1'' \<notin> redis_search ascii_runtime (utf16 ''k'')
        (snd (redis_indexFieldValue ascii_runtime (utf16 ''k'') (utf16 ''FIRST_NAME'') (utf16 ''a b c'') (utf16 ''T1'') 3 (\<lambda>key. {})))
        (utf16 ''FIRST_NAME'') (utf16 ''contains'') (utf16 '' b '') 3"
proof -
  have "utf16 ''a b c'' = utf16 ''a'' @ utf16 '' b '' @ utf16 ''c''"
    by (simp add: utf16_def)
  then have "sublist (utf16 '' b '') (normalize ascii_runtime (utf16 ''a b c''))"
    unfolding normalize_a_b_c by (simp only: sublist_appendI)
  moreover have "keysFor ascii_runtime (utf16 ''k'') f (utf16 ''contains'') (utf16 '' b '') 3 = []" for f
    by (simp add: keysFor_def normalize_padded_b) (simp add: utf16_def)
  ultimately show ?thesis
    by (simp add: redis_search_def) (simp add: utf16_def)
qed


text \<open>
  Claim C2, amended: after \<open>indexFieldValue(f, v, ref)\<close> on the Redis backend, from any
  store, every query whose normalised form matches the normalised value (equal to it for
  eq; a non-empty prefix for startsWith; a non-empty suffix, in code points, for
  endsWith; a substring of length at least K for contains) returns a set that contains
  \<open>ref\<close>.
\<close>

theorem search_covers_indexed_value:
  assumes "query_matches op k (normalize rt q) (normalize rt val)"
  shows "token \<in> redis_search rt secret
            (snd (redis_indexFieldValue rt secret fieldName val token k st)) fieldName op q k"
  using assms by (rule indexed_value_found)

theorem search_covers_indexed_value_witness:
  "query_matches (utf16 ''contains'') 3 (normalize ascii_runtime (utf16 ''RJU'')) (normalize ascii_runtime (utf16 ''Arjun''))
   \<and> utf16 ''T2'' \<in> redis_search ascii_runtime (utf16 ''k'')
        (snd (redis_indexFieldValue ascii_runtime (utf16 ''k'') (utf16 ''FIRST_NAME'') (utf16 ''Arjun'') (utf16 ''T2'') 3 (\<lambda>key. {})))
        (utf16 ''FIRST_NAME'') (utf16 ''contains'') (utf16 ''RJU'') 3"
proof -
  have a: "normalize ascii_runtime (utf16 ''Arjun'') = utf16 ''a'' @ utf16 ''rju'' @ utf16 ''n''"
    by (simp add: ascii_eval)
  have b: "normalize ascii_runtime (utf16 ''RJU'') = utf16 ''rju''"
    by (simp add: ascii_eval)
  have h: "query_matches (utf16 ''contains'') 3 (normalize ascii_runtime (utf16 ''RJU'')) (normalize ascii_runtime (utf16 ''Arjun''))"
  proof -
    have "sublist (utf16 ''rju'') (utf16 ''a'' @ utf16 ''rju'' @ utf16 ''n'')"
      by (rule sublist_appendI)
    moreover have "3 \<le> length (utf16 ''rju'')"
      by (simp add: utf16_def)
    ultimately show ?thesis
      unfolding a b query_matches_def by blast
  qed
  from search_covers_indexed_value [OF h] h show ?thesis by blast
qed


section \<open>Unknown fields and operators\<close>

text \<open>
  Claim C7, as stated: \<open>search\<close> returns an error and looks nothing up for a field name
  outside the field map or an operator outside the four.  It fails: for the unknown
  field \<open>SHOE_SIZE\<close> and for the unknown operator \<open>regex\<close> the search reads the store
  and returns the posting list.
\<close>

theorem search_unknown_input_counterexample:
  "map_of fieldMap (toUpperCase ascii_runtime (utf16 ''SHOE_SIZE'')) = None
   \<and> redis_search ascii_runtime (utf16 ''k'')
        (snd (redis_indexFieldValue ascii_runtime (utf16 ''k'') (utf16 ''SHOE_SIZE'') (utf16 ''42'') (utf16 ''T1'') 3 (\<lambda>key. {})))
        (utf16 ''SHOE_SIZE'') (utf16 ''eq'') (utf16 ''42'') 3 = {utf16 ''T1''}
   \<and> redis_search ascii_runtime (utf16 ''k'')
        (snd (redis_indexFieldValue ascii_runtime (utf16 ''k'') (utf16 ''FIRST_NAME'') (utf16 ''Arjun'') (utf16 ''T2'') 3 (\<lambda>key. {})))
        (utf16 ''FIRST_NAME'') (utf16 ''regex'') (utf16 ''rju'') 3 = {utf16 ''T2''}"
  by (simp add: redis_search_def redis_indexFieldValue_def keysFor_def generateAllIndexKeys_def
      sMembers_def sInter_def sAdd_def Let_def ascii_eval)


lemma redis_search_lookup:
  "redis_search rt secret st fieldName op q k =
     (if keysFor rt secret (getFieldAlias rt fieldName) op q k = [] then {}
      else (\<Inter>key \<in> set (keysFor rt secret (getFieldAlias rt fieldName) op q k). st key))"
proof (cases "keysFor rt secret (getFieldAlias rt fieldName) op q k")
  case Nil
  then show ?thesis by (simp add: redis_search_def)
next
  case (Cons key keys)
  show ?thesis
  proof (cases keys)
    case Nil
    with Cons show ?thesis by (simp add: redis_search_def sMembers_def)
  next
    case c: (Cons key2 keys2)
    have "sInter st (key # key2 # keys2) = (\<Inter>key \<in> set (key # key2 # keys2). st key)"
      by (rule sInter_Inter) simp
    with Cons c show ?thesis by (simp add: redis_search_def)
  qed
qed

lemma keysFor_other_operator:
  "op \<notin> {utf16 ''eq'', utf16 ''startsWith'', utf16 ''endsWith''} \<Longrightarrow>
     keysFor rt secret f op q k = keysFor rt secret f (utf16 ''contains'') q k"
  by (simp add: keysFor_def utf16_def)

lemma keysFor_contains_keys:
  "k \<le> length (normalize rt q) \<Longrightarrow>
     keysFor rt secret f (utf16 ''contains'') q k
     = map (\<lambda>i. idxKey rt secret f (gramTag k) (slice (normalize rt q) i (i + k)))
         [0 ..< length (normalize rt q) - k + 1]"
  by (simp add: keysFor_def utf16_def Let_def comp_def del: upt_Suc)

text \<open>
  Claim C7, amended: \<open>search\<close> rejects nothing and reads the store for every field name
  and operator.  For a field name outside the field map it returns the posting lists
  under the keys derived with the lower-cased name as alias (for eq: one \<open>SMEMBERS\<close> of
  that key).  For an operator other than eq, startsWith and endsWith it sends the
  commands and returns the result of contains: with a query of at least K characters
  after normalisation, a command is sent, the result is the intersection of the posting
  lists of the query's K-grams, and a value indexed under the field that contains the
  query is found.
\<close>

theorem search_unknown_input:
  "(map_of fieldMap (toUpperCase rt fieldName) = None \<longrightarrow>
      redis_search rt secret st fieldName op q k
        = (if keysFor rt secret (toLowerCase rt fieldName) op q k = [] then {}
           else (\<Inter>key \<in> set (keysFor rt secret (toLowerCase rt fieldName) op q k). st key))
    \<and> redis_search rt secret st fieldName (utf16 ''eq'') q k
        = st (idxKey rt secret (toLowerCase rt fieldName) (utf16 ''eq'') (normalize rt q))
    \<and> redis_search_commands rt secret fieldName (utf16 ''eq'') q k
        = [SMEMBERS (idxKey rt secret (toLowerCase rt fieldName) (utf16 ''eq'') (normalize rt q))])
   \<and> (op \<notin> {utf16 ''eq'', utf16 ''startsWith'', utf16 ''endsWith''} \<longrightarrow>
      redis_search rt secret st fieldName op q k
        = redis_search rt secret st fieldName (utf16 ''contains'') q k
    \<and> redis_search_commands rt secret fieldName op q k
        = redis_search_commands rt secret fieldName (utf16 ''contains'') q k
    \<and> (k \<le> length (normalize rt q) \<longrightarrow>
         redis_search_commands rt secret fieldName op q k \<noteq> []
       \<and> redis_search rt secret st fieldName op q k
           = (\<Inter>i \<in> {0 ..< length (normalize rt q) - k + 1}.
                st (idxKey rt secret (getFieldAlias rt fieldName) (gramTag k) (slice (normalize rt q) i (i + k))))
       \<and> (sublist (normalize rt q) (normalize rt val) \<longrightarrow>
            token \<in> redis_search rt secret
               (snd (redis_indexFieldValue rt secret fieldName val token k st)) fieldName op q k)))"
proof (intro conjI impI)
  assume u: "map_of fieldMap (toUpperCase rt fieldName) = None"
  then have a: "getFieldAlias rt fieldName = toLowerCase rt fieldName"
    by (simp add: getFieldAlias_def)
  show "redis_search rt secret st fieldName op q k
        = (if keysFor rt secret (toLowerCase rt fieldName) op q k = [] then {}
           else (\<Inter>key \<in> set (keysFor rt secret (toLowerCase rt fieldName) op q k). st key))"
    using redis_search_lookup [of rt secret st fieldName op q k] by (simp only: a)
  show "redis_search rt secret st fieldName (utf16 ''eq'') q k
        = st (idxKey rt secret (toLowerCase rt fieldName) (utf16 ''eq'') (normalize rt q))"
    by (simp add: redis_search_def keysFor_def sMembers_def a)
  show "redis_search_commands rt secret fieldName (utf16 ''eq'') q k
        = [SMEMBERS (idxKey rt secret (toLowerCase rt fieldName) (utf16 ''eq'') (normalize rt q))]"
    by (simp add: redis_search_commands_def keysFor_def a)
next
  assume o: "op \<notin> {utf16 ''eq'', utf16 ''startsWith'', utf16 ''endsWith''}"
  note e = keysFor_other_operator [OF o]
  show s: "redis_search rt secret st fieldName op q k
        = redis_search rt secret st fieldName (utf16 ''contains'') q k" for st
    by (simp only: redis_search_def e)
  show "redis_search_commands rt secret fieldName op q k
        = redis_search_commands rt secret fieldName (utf16 ''contains'') q k"
    by (simp only: redis_search_commands_def e)
  assume l: "k \<le> length (normalize rt q)"
  note g = keysFor_contains_keys [OF l]
  have ne: "keysFor rt secret f (utf16 ''contains'') q k \<noteq> []" for f
    unfolding g by simp
  show "redis_search_commands rt secret fieldName op q k \<noteq> []"
    using ne [of "getFieldAlias rt fieldName"]
    by (simp add: redis_search_commands_def e Let_def)
  show "redis_search rt secret st fieldName op q k
           = (\<Inter>i \<in> {0 ..< length (normalize rt q) - k + 1}.
                st (idxKey rt secret (getFieldAlias rt fieldName) (gramTag k) (slice (normalize rt q) i (i + k))))"
  proof -
    have "redis_search rt secret st fieldName (utf16 ''contains'') q k
        = (\<Inter>key \<in> set (keysFor rt secret (getFieldAlias rt fieldName) (utf16 ''contains'') q k). st key)"
      using ne [of "getFieldAlias rt fieldName"] by (simp only: redis_search_lookup if_False)
    also have "\<dots> = (\<Inter>i \<in> {0 ..< length (normalize rt q) - k + 1}.
                st (idxKey rt secret (getFieldAlias rt fieldName) (gramTag k) (slice (normalize rt q) i (i + k))))"
      unfolding g by (simp only: set_map set_upt image_image)
    finally show ?thesis by (simp only: s)
  qed
  assume m: "sublist (normalize rt q) (normalize rt val)"
  from l m have "query_matches (utf16 ''contains'') k (normalize rt q) (normalize rt val)"
    by (simp add: query_matches_def)
  then have "token \<in> redis_search rt secret
               (snd (redis_indexFieldValue rt secret fieldName val token k st)) fieldName (utf16 ''contains'') q k"
    by (rule indexed_value_found)
  then show "token \<in> redis_search rt secret
               (snd (redis_indexFieldValue rt secret fieldName val token k st)) fieldName op q k"
    by (simp only: s)
qed

theorem search_unknown_input_witness:
  "map_of fieldMap (toUpperCase ascii_runtime (utf16 ''SHOE_SIZE'')) = None
   \<and> utf16 ''regex'' \<notin> {utf16 ''eq'', utf16 ''startsWith'', utf16 ''endsWith''}
   \<and> 3 \<le> length (normalize ascii_runtime (utf16 ''RJUN''))
   \<and> sublist (normalize ascii_runtime (utf16 ''RJUN'')) (normalize ascii_runtime (utf16 ''Arjun''))
   \<and> redis_search ascii_runtime (utf16 ''k'')
        (snd (redis_indexFieldValue ascii_runtime (utf16 ''k'') (utf16 ''SHOE_SIZE'') (utf16 ''Arjun'') (utf16 ''T1'') 3 (\<lambda>key. {})))
        (utf16 ''SHOE_SIZE'') (utf16 ''regex'') (utf16 ''RJUN'') 3 = {utf16 ''T1''}
   \<and> redis_search ascii_runtime (utf16 ''k'')
        (snd (redis_indexFieldValue ascii_runtime (utf16 ''k'') (utf16 ''SHOE_SIZE'') (utf16 ''Arjun'') (utf16 ''T1'') 3 (\<lambda>key. {})))
        (utf16 ''SHOE_SIZE'') (utf16 ''eq'') (utf16 ''RJUN'') 3 = {}
   \<and> redis_search_commands ascii_runtime (utf16 ''k'') (utf16 ''SHOE_SIZE'') (utf16 ''regex'') (utf16 ''RJUN'') 3
     = [SINTER [utf16 ''idx:shoe_size:g3:kshoe_size|rju'', utf16 ''idx:shoe_size:g3:kshoe_size|jun'']]"
proof -
  let ?st = "snd (redis_indexFieldValue ascii_runtime (utf16 ''k'') (utf16 ''SHOE_SIZE'') (utf16 ''Arjun'') (utf16 ''T1'') 3 (\<lambda>key. {}))"
  have a: "map_of fieldMap (toUpperCase ascii_runtime (utf16 ''SHOE_SIZE'')) = None"
    by (simp add: ascii_eval)
  have b: "utf16 ''regex'' \<notin> {utf16 ''eq'', utf16 ''startsWith'', utf16 ''endsWith''}"
    by (simp add: utf16_def)
  have nq: "normalize ascii_runtime (utf16 ''RJUN'') = utf16 ''rjun''"
    by (simp add: ascii_eval)
  have nv: "normalize ascii_runtime (utf16 ''Arjun'') = utf16 ''a'' @ utf16 ''rjun'' @ []"
    by (simp add: ascii_eval)
  have c: "3 \<le> length (normalize ascii_runtime (utf16 ''RJUN''))"
    unfolding nq by (simp add: utf16_def)
  have d: "sublist (normalize ascii_runtime (utf16 ''RJUN'')) (normalize ascii_runtime (utf16 ''Arjun''))"
    unfolding nq nv by (rule sublist_appendI)
  have e: "redis_search ascii_runtime (utf16 ''k'') ?st (utf16 ''SHOE_SIZE'') (utf16 ''contains'') (utf16 ''RJUN'') 3
      \<subseteq> {utf16 ''T1''}"
    by (simp add: redis_search_def redis_indexFieldValue_def keysFor_def generateAllIndexKeys_def
        sMembers_def sInter_def sAdd_def Let_def ascii_eval)
  have f: "redis_search ascii_runtime (utf16 ''k'') ?st (utf16 ''SHOE_SIZE'') (utf16 ''eq'') (utf16 ''RJUN'') 3 = {}"
    by (simp add: redis_search_def redis_indexFieldValue_def keysFor_def generateAllIndexKeys_def
        sMembers_def sInter_def sAdd_def Let_def ascii_eval)
  have g: "redis_search_commands ascii_runtime (utf16 ''k'') (utf16 ''SHOE_SIZE'') (utf16 ''contains'') (utf16 ''RJUN'') 3
     = [SINTER [utf16 ''idx:shoe_size:g3:kshoe_size|rju'', utf16 ''idx:shoe_size:g3:kshoe_size|jun'']]"
    by (simp add: redis_search_commands_def keysFor_def Let_def ascii_eval)
  note u = search_unknown_input [where rt = ascii_runtime and fieldName = "utf16 ''SHOE_SIZE''"
      and secret = "utf16 ''k''" and op = "utf16 ''regex''" and q = "utf16 ''RJUN''" and k = 3
      and val = "utf16 ''Arjun''" and token = "utf16 ''T1''"]
  from u [where st = "\<lambda>key. {}"] a b c d
  have t: "utf16 ''T1'' \<in> redis_search ascii_runtime (utf16 ''k'') ?st (utf16 ''SHOE_SIZE'') (utf16 ''regex'') (utf16 ''RJUN'') 3"
    by blast
  from u [where st = ?st] a b c d
  have s: "redis_search ascii_runtime (utf16 ''k'') ?st (utf16 ''SHOE_SIZE'') (utf16 ''regex'') (utf16 ''RJUN'') 3
      = redis_search ascii_runtime (utf16 ''k'') ?st (utf16 ''SHOE_SIZE'') (utf16 ''contains'') (utf16 ''RJUN'') 3"
    and m: "redis_search_commands ascii_runtime (utf16 ''k'') (utf16 ''SHOE_SIZE'') (utf16 ''regex'') (utf16 ''RJUN'') 3
      = redis_search_commands ascii_runtime (utf16 ''k'') (utf16 ''SHOE_SIZE'') (utf16 ''contains'') (utf16 ''RJUN'') 3"
    by blast+
  from t e s have "redis_search ascii_runtime (utf16 ''k'') ?st (utf16 ''SHOE_SIZE'') (utf16 ''regex'') (utf16 ''RJUN'') 3 = {utf16 ''T1''}"
    by blast
  with a b c d f g m show ?thesis
    by (simp only: simp_thms)
qed


section \<open>Erasure on the Redis backend\<close>

text \<open>
  Claim C5 asks that \<open>removeFieldValue\<close> after \<open>indexFieldValue\<close> completes and that
  no later query returns the reference.  The method calls \<open>this.generateFieldKeys\<close>,
  which does not exist: for every input the call throws, the store is left as it was,
  and the equality query for the value still returns the reference.
\<close>

theorem removeFieldValue_throws:
  "fst (redis_removeFieldValue fieldName val token k st)
     = Inl (TypeError (utf16 ''this.generateFieldKeys is not a function''))
   \<and> snd (redis_removeFieldValue fieldName val token k st) = st
   \<and> token \<in> redis_search rt secret
        (snd (redis_removeFieldValue fieldName val token k
           (snd (redis_indexFieldValue rt secret fieldName val token k st))))
        fieldName (utf16 ''eq'') val k"
proof -
  have "query_matches (utf16 ''eq'') k (normalize rt val) (normalize rt val)"
    by (simp add: query_matches_def)
  then show ?thesis
    by (simp add: redis_removeFieldValue_def removeFieldValue_body_def
        FieldAwareRedisIndexer_generateFieldKeys_def indexed_value_found)
qed


section \<open>Lemmas on the relational search\<close>

lemma length_codePoints: "length (codePoints s) \<le> length s"
  by (induction s rule: codePoints.induct) auto

lemma fitsVarchar_length: "length s \<le> n \<Longrightarrow> fitsVarchar n s"
  using length_codePoints [of s] by (simp add: fitsVarchar_def)

lemma varchar_length: "length s \<le> n \<Longrightarrow> varchar n s = Inr s"
  by (simp add: varchar_def fitsVarchar_length)


lemmas db_eval = addTokenToIndex_def db_indexFieldValue_def varchar_length searchTokensInIndex_def
  db_search_def string_to_array_def keysFor_def generateAllIndexKeys_def Let_def

lemma finite_if_set: "finite (if b then {} else set xs)"
  by simp

lemma finite_searchTokensInIndex: "finite (searchTokensInIndex keys now db)"
  unfolding searchTokensInIndex_def Let_def
  by (rule finite_if_set)

lemma finite_fold_inter: "finite A \<Longrightarrow> finite (fold (\<lambda>s acc. acc \<inter> s) ss A)"
  by (induction ss arbitrary: A) simp_all

lemma finite_db_search: "finite (db_search rt secret db now fieldName op query k)"
  by (auto simp add: db_search_def Let_def finite_searchTokensInIndex finite_fold_inter
      split: list.splits)


section \<open>The k-anonymity gate\<close>

text \<open>
  Claim C3, as stated: every executed search is gated, after Boolean composition.  It
  fails: \<open>executeComplexQuery\<close>, the Boolean composer, returns its result as it is; with
  one matching record the conjunction below returns that record's token, one element
  where the threshold is 5, and the answer has no flag to carry.
\<close>

theorem executeComplexQuery_ungated_counterexample:
  "db_executeComplexQuery ascii_runtime (utf16 ''k'')
      (snd (db_indexFieldValue ascii_runtime (utf16 ''k'') (utf16 ''CITY'') (utf16 ''Mumbai'') (utf16 ''T1'') 0 Map.empty))
      1 [\<lparr>cond_field = utf16 ''CITY'', cond_operation = utf16 ''startsWith'', cond_value = utf16 ''Mum''\<rparr>]
      (utf16 ''AND'')
   = Inr {utf16 ''T1''}"
  by (auto simp add: db_executeComplexQuery_def db_eval ascii_eval)


text \<open>
  Claim C3, amended: a search through \<open>performSearch\<close> (one predicate) is gated.  For
  a query it accepts (non-empty, of at least \<open>minQueryLength\<close> characters) it returns a
  response, and with \<open>n\<close> the size of the result of \<open>search\<close> and \<open>k_min\<close> the configured
  \<open>minResultSize\<close>: if \<open>0 < n < k_min\<close> the returned set is empty and the flag is set;
  if \<open>n = 0\<close> the set is empty and the flag unset; if \<open>n \<ge> k_min\<close> the result passes
  whole with the flag unset.
\<close>

theorem performSearch_gate:
  assumes "query \<noteq> []" "minQueryLength config \<le> int (length query)"
  shows "\<exists>response operation.
       performSearch config rt secret db now query fieldType' queryType' = Inr response
     \<and> resultCount response = card (db_search rt secret db now fieldType' operation query 3)
     \<and> (0 < resultCount response \<and> int (resultCount response) < minResultSize config
          \<longrightarrow> tokens response = {} \<and> kAnonymityApplied response)
     \<and> (resultCount response = 0 \<longrightarrow> tokens response = {} \<and> \<not> kAnonymityApplied response)
     \<and> (minResultSize config \<le> int (resultCount response)
          \<longrightarrow> tokens response = db_search rt secret db now fieldType' operation query 3
            \<and> \<not> kAnonymityApplied response)"
proof -
  define qt where "qt = toLowerCase rt queryType'"
  define operation where "operation =
               (if qt = utf16 ''exact'' \<or> qt = utf16 ''equals'' then utf16 ''eq''
                else if qt = utf16 ''starts_with'' \<or> qt = utf16 ''startswith'' then utf16 ''startsWith''
                else if qt = utf16 ''ends_with'' \<or> qt = utf16 ''endswith'' then utf16 ''endsWith''
                else utf16 ''contains'')"
  define found where "found = db_search rt secret db now fieldType' operation query 3"
  define response where "response =
     \<lparr>tokens = (if int (card found) \<ge> minResultSize config then found else {}),
      resultCount = card found,
      anonymizedCount = card (if int (card found) \<ge> minResultSize config then found else {}),
      queryType = queryType',
      fieldType = fieldType',
      kAnonymityApplied = (card found > 0 \<and> card (if int (card found) \<ge> minResultSize config then found else {}) = 0)\<rparr>"
  have fin: "finite found"
    unfolding found_def by (rule finite_db_search)
  have a1: "performSearch config rt secret db now query fieldType' queryType' = Inr response"
    using assms
    by (simp only: performSearch_def Let_def response_def found_def operation_def qt_def) simp
  have a2: "resultCount response = card found"
    by (simp add: response_def)
  have a3: "0 < resultCount response \<and> int (resultCount response) < minResultSize config
          \<longrightarrow> tokens response = {} \<and> kAnonymityApplied response"
    by (simp add: response_def)
  have a4: "resultCount response = 0 \<longrightarrow> tokens response = {} \<and> \<not> kAnonymityApplied response"
    using fin by (simp add: response_def)
  have a5: "minResultSize config \<le> int (resultCount response)
          \<longrightarrow> tokens response = found \<and> \<not> kAnonymityApplied response"
    by (auto simp add: response_def)
  have "performSearch config rt secret db now query fieldType' queryType' = Inr response
     \<and> resultCount response = card found
     \<and> (0 < resultCount response \<and> int (resultCount response) < minResultSize config
          \<longrightarrow> tokens response = {} \<and> kAnonymityApplied response)
     \<and> (resultCount response = 0 \<longrightarrow> tokens response = {} \<and> \<not> kAnonymityApplied response)
     \<and> (minResultSize config \<le> int (resultCount response)
          \<longrightarrow> tokens response = found \<and> \<not> kAnonymityApplied response)"
    using a1 a2 a3 a4 a5 by (intro conjI)
  then show ?thesis
    unfolding found_def by (intro exI)
qed

theorem performSearch_gate_witness:
  "utf16 ''Mum'' \<noteq> [] \<and> minQueryLength default_config \<le> int (length (utf16 ''Mum''))
   \<and> performSearch default_config ascii_runtime (utf16 ''k'')
        (snd (db_indexFieldValue ascii_runtime (utf16 ''k'') (utf16 ''CITY'') (utf16 ''Mumbai'') (utf16 ''T1'') 0 Map.empty))
        1 (utf16 ''Mum'') (utf16 ''CITY'') (utf16 ''startsWith'')
      = Inr \<lparr>tokens = {}, resultCount = 1, anonymizedCount = 0, queryType = utf16 ''startsWith'',
             fieldType = utf16 ''CITY'', kAnonymityApplied = True\<rparr>"
proof -
  let ?db = "snd (db_indexFieldValue ascii_runtime (utf16 ''k'') (utf16 ''CITY'') (utf16 ''Mumbai'') (utf16 ''T1'') 0 Map.empty)"
  have h1: "utf16 ''Mum'' \<noteq> []" by (simp add: utf16_def)
  have h2: "minQueryLength default_config \<le> int (length (utf16 ''Mum''))"
    by (simp add: default_config_def utf16_def)
  have s: "db_search ascii_runtime (utf16 ''k'') ?db 1 (utf16 ''CITY'') (utf16 ''startsWith'') (utf16 ''Mum'') 3
      = {utf16 ''T1''}"
    by (auto simp add: db_eval ascii_eval)
  have q: "toLowerCase ascii_runtime (utf16 ''startsWith'') = utf16 ''startswith''"
    by (simp add: ascii_runtime_def utf16_def asciiLower_def)
  have o: "(if utf16 ''startswith'' = utf16 ''exact'' \<or> utf16 ''startswith'' = utf16 ''equals'' then utf16 ''eq''
                else if utf16 ''startswith'' = utf16 ''starts_with'' \<or> utf16 ''startswith'' = utf16 ''startswith'' then utf16 ''startsWith''
                else if utf16 ''startswith'' = utf16 ''ends_with'' \<or> utf16 ''startswith'' = utf16 ''endswith'' then utf16 ''endsWith''
                else utf16 ''contains'') = utf16 ''startsWith''"
    by (simp add: utf16_def)
  have e: "performSearch default_config ascii_runtime (utf16 ''k'') ?db
        1 (utf16 ''Mum'') (utf16 ''CITY'') (utf16 ''startsWith'')
      = Inr \<lparr>tokens = {}, resultCount = 1, anonymizedCount = 0, queryType = utf16 ''startsWith'',
             fieldType = utf16 ''CITY'', kAnonymityApplied = True\<rparr>"
    unfolding performSearch_def Let_def q o s
    using h1 h2 by (simp add: default_config_def)
  from performSearch_gate [OF h1 h2, of ascii_runtime "utf16 ''k''" ?db 1 "utf16 ''CITY''" "utf16 ''startsWith''"]
  have "\<exists>response. performSearch default_config ascii_runtime (utf16 ''k'') ?db
        1 (utf16 ''Mum'') (utf16 ''CITY'') (utf16 ''startsWith'') = Inr response"
    by blast
  with e h1 h2 show ?thesis by blast
qed


section \<open>Adding a token to the relational index\<close>

text \<open>
  Claim C4 asks that after \<open>add(key, ref, ...)\<close> the posting list at \<open>key\<close> contains
  \<open>ref\<close>.  \<open>addTokenToIndex\<close> tests membership with \<open>LIKE '%ref%'\<close>, a substring test
  on the comma-joined list: after \<open>TKN_10\<close>, adding \<open>TKN_1\<close> to the same key leaves the
  list \<open>TKN_10\<close>, and a lookup of the key does not return \<open>TKN_1\<close>, at any time and
  for any key, field tag and retention dates.
\<close>

theorem addTokenToIndex_skips_substring_token:
  "map_option token_set
     (addTokenToIndex key (utf16 ''TKN_1'') tag r1 t1
        (addTokenToIndex key (utf16 ''TKN_10'') tag r0 t0 Map.empty) key)
     = Some (utf16 ''TKN_10'')
   \<and> utf16 ''TKN_1'' \<notin> searchTokensInIndex [key] now
        (addTokenToIndex key (utf16 ''TKN_1'') tag r1 t1
           (addTokenToIndex key (utf16 ''TKN_10'') tag r0 t0 Map.empty))"
  by (auto simp add: addTokenToIndex_def searchTokensInIndex_def string_to_array_def Let_def
      utf16_def trim_def isWhiteSpace_def)


section \<open>Retention\<close>

lemma expired_row_lookup:
  assumes "db key = Some row" "retention_until row \<le> now"
  shows "searchTokensInIndex keys now db = searchTokensInIndex keys now (db(key := None))"
proof -
  have "(\<lambda>key'. case db key' of None \<Rightarrow> []
           | Some row \<Rightarrow> if retention_until row > now then string_to_array (token_set row) else [])
      = (\<lambda>key'. case (db(key := None)) key' of None \<Rightarrow> []
           | Some row \<Rightarrow> if retention_until row > now then string_to_array (token_set row) else [])"
    using assms by (auto simp add: fun_eq_iff)
  then show ?thesis
    by (simp only: searchTokensInIndex_def)
qed

text \<open>
  Claim C6, as stated, speaks of both backends.  The Redis indexer writes no expiry and
  its search reads no clock: the entry indexed at time 0, which the relational backend
  stops returning one year later, is returned by the Redis search whenever it is asked.
\<close>

theorem redis_ignores_expiry_counterexample:
  "db_search ascii_runtime (utf16 ''k'')
      (snd (db_indexFieldValue ascii_runtime (utf16 ''k'') (utf16 ''CITY'') (utf16 ''Pune'') (utf16 ''T1'') 0 Map.empty))
      31536000001 (utf16 ''CITY'') (utf16 ''eq'') (utf16 ''Pune'') 3 = {}
   \<and> redis_search ascii_runtime (utf16 ''k'')
      (snd (redis_indexFieldValue ascii_runtime (utf16 ''k'') (utf16 ''CITY'') (utf16 ''Pune'') (utf16 ''T1'') 3 (\<lambda>key. {})))
      (utf16 ''CITY'') (utf16 ''eq'') (utf16 ''Pune'') 3 = {utf16 ''T1''}"
  by (auto simp add: db_eval redis_search_def redis_indexFieldValue_def sMembers_def sAdd_def ascii_eval)


text \<open>
  Claim C6, amended: on the relational backend a lookup at a time \<open>now\<close> with
  \<open>retention_until \<le> now\<close> for an entry gives the result it would give were the entry
  absent, for a list of keys and for a whole search.
\<close>

theorem expired_row_is_absent:
  assumes "db key = Some row" "retention_until row \<le> now"
  shows "searchTokensInIndex keys now db = searchTokensInIndex keys now (db(key := None))
     \<and> db_search rt secret db now fieldName op q k
       = db_search rt secret (db(key := None)) now fieldName op q k"
proof -
  have e: "searchTokensInIndex keys' now db = searchTokensInIndex keys' now (db(key := None))" for keys'
    using assms by (rule expired_row_lookup)
  show ?thesis
    unfolding db_search_def by (simp only: e [symmetric])
qed

theorem expired_row_is_absent_witness:
  "[utf16 ''k1'' \<mapsto> \<lparr>token_set = utf16 ''T1'', field_type = utf16 ''CITY'', created_at = 0, retention_until = 10\<rparr>]
      (utf16 ''k1'')
     = Some \<lparr>token_set = utf16 ''T1'', field_type = utf16 ''CITY'', created_at = 0, retention_until = 10\<rparr>
   \<and> retention_until \<lparr>token_set = utf16 ''T1'', field_type = utf16 ''CITY'', created_at = 0, retention_until = 10\<rparr> \<le> (11::int)
   \<and> searchTokensInIndex [utf16 ''k1''] 11
        [utf16 ''k1'' \<mapsto> \<lparr>token_set = utf16 ''T1'', field_type = utf16 ''CITY'', created_at = 0, retention_until = 10\<rparr>]
      = {}
   \<and> searchTokensInIndex [utf16 ''k1''] 9
        [utf16 ''k1'' \<mapsto> \<lparr>token_set = utf16 ''T1'', field_type = utf16 ''CITY'', created_at = 0, retention_until = 10\<rparr>]
      = {utf16 ''T1''}"
proof -
  let ?row = "\<lparr>token_set = utf16 ''T1'', field_type = utf16 ''CITY'', created_at = 0, retention_until = 10\<rparr>"
  have a: "[utf16 ''k1'' \<mapsto> ?row] (utf16 ''k1'') = Some ?row" by simp
  have b: "retention_until ?row \<le> (11::int)" by simp
  have c: "searchTokensInIndex [utf16 ''k1''] 11 (([utf16 ''k1'' \<mapsto> ?row]) (utf16 ''k1'' := None)) = {}"
    by (simp add: searchTokensInIndex_def)
  have d: "searchTokensInIndex [utf16 ''k1''] 9 [utf16 ''k1'' \<mapsto> ?row] = {utf16 ''T1''}"
    by (auto simp add: searchTokensInIndex_def string_to_array_def utf16_def trim_def isWhiteSpace_def)
  from expired_row_is_absent [of "[utf16 ''k1'' \<mapsto> ?row]" "utf16 ''k1''" ?row 11 "[utf16 ''k1'']", OF a b] a b c d
  show ?thesis
    by simp
qed


section \<open>Normalisation\<close>

lemma isWhiteSpace_asciiLower: "isWhiteSpace (asciiLower c) = isWhiteSpace c"
  by (auto simp add: isWhiteSpace_def asciiLower_def)

lemma asciiLower_idem: "asciiLower (asciiLower c) = asciiLower c"
  by (simp add: asciiLower_def)

lemma dropWhile_map_asciiLower:
  "dropWhile isWhiteSpace (map asciiLower xs) = map asciiLower (dropWhile isWhiteSpace xs)"
  by (induction xs) (simp_all add: isWhiteSpace_asciiLower)

lemma trim_map_asciiLower: "trim (map asciiLower s) = map asciiLower (trim s)"
  by (simp only: trim_def dropWhile_map_asciiLower rev_map)

lemma dropWhile_rev_fixed:
  assumes "b = dropWhile P (rev (dropWhile P s))"
  shows "dropWhile P (rev b) = rev b"
proof (cases "b = []")
  case True
  then show ?thesis by simp
next
  case False
  define a where "a = dropWhile P s"
  have "rev a = takeWhile P (rev a) @ b"
    unfolding assms a_def by simp
  then have "rev (rev a) = rev (takeWhile P (rev a) @ b)"
    by (rule arg_cong)
  then have a: "a = rev b @ rev (takeWhile P (rev a))"
    by simp
  from False have "rev b \<noteq> []" by simp
  with a have "a \<noteq> []" and h: "hd a = hd (rev b)"
    by (metis append_is_Nil_conv, metis hd_append2)
  from \<open>a \<noteq> []\<close> have "\<not> P (hd a)"
    unfolding a_def by (rule hd_dropWhile)
  with h \<open>rev b \<noteq> []\<close> show ?thesis
    by (cases "rev b") simp_all
qed

lemma trim_idem: "trim (trim s) = trim s"
proof -
  define b where "b = dropWhile isWhiteSpace (rev (dropWhile isWhiteSpace s))"
  have t: "trim s = rev b" by (simp add: trim_def b_def)
  have "dropWhile isWhiteSpace (rev b) = rev b"
    using b_def by (rule dropWhile_rev_fixed)
  moreover have "dropWhile isWhiteSpace b = b"
    unfolding b_def by (rule dropWhile_idem)
  ultimately have "trim (rev b) = rev b"
    by (simp add: trim_def)
  then show ?thesis by (simp only: t)
qed

lemma trim_padding:
  assumes "list_all isWhiteSpace ws1" "list_all isWhiteSpace ws2"
  shows "trim (ws1 @ s @ ws2) = trim s"
proof -
  have l: "dropWhile isWhiteSpace (ws @ x) = dropWhile isWhiteSpace x" if "list_all isWhiteSpace ws" for ws x
    using that by (induction ws) simp_all
  have w2: "list_all isWhiteSpace (rev ws2)"
    using assms(2) by (simp add: list_all_iff)
  have r: "dropWhile isWhiteSpace (rev (x @ ws2)) = dropWhile isWhiteSpace (rev x)" for x
    using l [OF w2] by simp
  have e: "dropWhile isWhiteSpace x = []" if "list_all isWhiteSpace x" for x
    using that by (induction x) simp_all
  have n: "dropWhile isWhiteSpace (x @ y) = dropWhile isWhiteSpace x @ y" if "\<not> list_all isWhiteSpace x" for x y
    using that by (induction x) simp_all
  have "trim (s @ ws2) = trim s"
  proof (cases "list_all isWhiteSpace s")
    case True
    with assms(2) have "list_all isWhiteSpace (s @ ws2)" by simp
    then have e1: "dropWhile isWhiteSpace (s @ ws2) = []" by (rule e)
    have e2: "dropWhile isWhiteSpace s = []" using True by (rule e)
    show ?thesis unfolding trim_def e1 e2 by (rule refl)
  next
    case False
    then have "dropWhile isWhiteSpace (s @ ws2) = dropWhile isWhiteSpace s @ ws2" by (rule n)
    then show ?thesis by (simp only: trim_def r)
  qed
  moreover have "trim (ws1 @ s @ ws2) = trim (s @ ws2)"
    by (simp only: trim_def l [OF assms(1)])
  ultimately show ?thesis by simp
qed

lemma ascii_trim: "ascii s \<Longrightarrow> ascii (trim s)"
proof -
  assume "ascii s"
  have "set (trim s) \<subseteq> set s"
    unfolding trim_def set_rev
    by (meson order_trans set_dropWhileD subsetI set_rev [THEN equalityD1] )
  with \<open>ascii s\<close> show ?thesis
    by (auto simp add: ascii_def list_all_iff)
qed

lemma ascii_map_asciiLower: "ascii s \<Longrightarrow> ascii (map asciiLower s)"
  by (auto simp add: ascii_def list_all_iff asciiLower_def)

lemma normalize_ascii:
  "ascii_conformant rt \<Longrightarrow> ascii s \<Longrightarrow> normalize rt s = trim (map asciiLower s)"
  by (simp add: normalize_def ascii_conformant_def)

lemma ascii_conformant_ascii_runtime: "ascii_conformant ascii_runtime"
  by (simp add: ascii_conformant_def ascii_runtime_def)

lemma normalize_stable_idem:
  assumes "normalizeNFKC rt (normalize rt s) = normalize rt s"
    and "toLowerCase rt (normalize rt s) = normalize rt s"
  shows "normalize rt (normalize rt s) = normalize rt s"
proof -
  have "normalize rt (normalize rt s) = trim (normalize rt s)"
    using assms by (simp add: normalize_def [of rt "normalize rt s"])
  also have "\<dots> = normalize rt s"
    by (simp add: normalize_def trim_idem)
  finally show ?thesis .
qed

lemma normalize_ascii_stable:
  assumes "ascii_conformant rt" "ascii s"
  shows "normalizeNFKC rt (normalize rt s) = normalize rt s"
    and "toLowerCase rt (normalize rt s) = normalize rt s"
proof -
  have n: "normalize rt s = trim (map asciiLower s)"
    using assms by (rule normalize_ascii)
  have a: "ascii (normalize rt s)"
    using assms(2) by (simp add: n ascii_trim ascii_map_asciiLower)
  with assms(1) show "normalizeNFKC rt (normalize rt s) = normalize rt s"
    by (simp add: ascii_conformant_def)
  from assms(1) a have "toLowerCase rt (normalize rt s) = map asciiLower (normalize rt s)"
    by (simp add: ascii_conformant_def)
  also have "\<dots> = normalize rt s"
    by (simp add: n trim_map_asciiLower [symmetric] asciiLower_idem comp_def)
  finally show "toLowerCase rt (normalize rt s) = normalize rt s" .
qed

lemma map_asciiLower_whiteSpace: "list_all isWhiteSpace ws \<Longrightarrow> map asciiLower ws = ws"
  by (induction ws) (auto simp add: isWhiteSpace_def asciiLower_def)

text \<open>
  Claim C9, as stated: \<open>normalize\<close> is idempotent, and strings that differ only by case
  have the same image.  Both fail on the letter j with caron.  Unicode has U+01F0 for
  the small letter and no capital: the capital is J followed by U+030C.  NFKC leaves
  J, U+030C alone, lower-casing gives j, U+030C, and a second \<open>normalize\<close> composes that
  to U+01F0: \<open>normalize\<close> is not idempotent there.  U+01F0 and J, U+030C differ only by
  case, each is the other's case variant and both have the upper-case form J, U+030C;
  their images are U+01F0 and j, U+030C.
\<close>

theorem normalize_counterexample:
  "normalize jcaron_runtime (normalize jcaron_runtime [74, 780]) \<noteq> normalize jcaron_runtime [74, 780]
   \<and> toUpperCase jcaron_runtime [496] = toUpperCase jcaron_runtime [74, 780]
   \<and> normalize jcaron_runtime [496] \<noteq> normalize jcaron_runtime [74, 780]"
  by (simp add: normalize_def jcaron_runtime_def upperJCaron_def trim_def isWhiteSpace_def
      asciiLower_def asciiUpper_def)


text \<open>
  Claim C9, amended, for every runtime.  \<open>normalize\<close> is idempotent on every string
  whose image is unchanged by NFKC and by lower-casing, and every ASCII string is one.
  Two strings whose NFKC forms have the same lower-case form have the same image, as
  have two ASCII strings that differ only in the case of letters.  White space around
  a string does not change the image when NFKC and lower-casing take the padded string
  to the image of the string between white space, as they do on ASCII strings.  Strings
  with the same NFKC form have the same image, and strings with the same image derive
  the same index keys and query keys.
\<close>

theorem normalize_properties:
  "(normalizeNFKC rt (normalize rt s) = normalize rt s \<and> toLowerCase rt (normalize rt s) = normalize rt s
      \<longrightarrow> normalize rt (normalize rt s) = normalize rt s)
   \<and> (ascii_conformant rt \<and> ascii s \<longrightarrow> normalize rt (normalize rt s) = normalize rt s)
   \<and> (toLowerCase rt (normalizeNFKC rt s) = toLowerCase rt (normalizeNFKC rt t)
      \<longrightarrow> normalize rt s = normalize rt t)
   \<and> (ascii_conformant rt \<and> ascii s \<and> ascii t \<and> map asciiLower s = map asciiLower t
      \<longrightarrow> normalize rt s = normalize rt t)
   \<and> (list_all isWhiteSpace p1 \<and> list_all isWhiteSpace p2
       \<and> toLowerCase rt (normalizeNFKC rt (ws1 @ s @ ws2)) = p1 @ toLowerCase rt (normalizeNFKC rt s) @ p2
      \<longrightarrow> normalize rt (ws1 @ s @ ws2) = normalize rt s)
   \<and> (ascii_conformant rt \<and> ascii (ws1 @ s @ ws2) \<and> list_all isWhiteSpace ws1 \<and> list_all isWhiteSpace ws2
      \<longrightarrow> normalize rt (ws1 @ s @ ws2) = normalize rt s)
   \<and> (normalizeNFKC rt s = normalizeNFKC rt t \<longrightarrow> normalize rt s = normalize rt t)
   \<and> (normalize rt s = normalize rt t
      \<longrightarrow> generateAllIndexKeys rt secret f s k = generateAllIndexKeys rt secret f t k
        \<and> keysFor rt secret f op s k = keysFor rt secret f op t k)"
proof (intro conjI impI)
  show "normalize rt (normalize rt s) = normalize rt s"
    if "normalizeNFKC rt (normalize rt s) = normalize rt s \<and> toLowerCase rt (normalize rt s) = normalize rt s"
    using that by (simp only: normalize_stable_idem)
  show "normalize rt (normalize rt s) = normalize rt s" if "ascii_conformant rt \<and> ascii s"
    using that by (simp only: normalize_stable_idem normalize_ascii_stable)
  show "normalize rt s = normalize rt t"
    if "toLowerCase rt (normalizeNFKC rt s) = toLowerCase rt (normalizeNFKC rt t)"
    using that by (simp only: normalize_def)
  show "normalize rt s = normalize rt t"
    if "ascii_conformant rt \<and> ascii s \<and> ascii t \<and> map asciiLower s = map asciiLower t"
    using that by (simp add: normalize_ascii)
  show "normalize rt (ws1 @ s @ ws2) = normalize rt s"
    if "list_all isWhiteSpace p1 \<and> list_all isWhiteSpace p2
       \<and> toLowerCase rt (normalizeNFKC rt (ws1 @ s @ ws2)) = p1 @ toLowerCase rt (normalizeNFKC rt s) @ p2"
    using that by (simp only: normalize_def trim_padding)
  show "normalize rt (ws1 @ s @ ws2) = normalize rt s"
    if h: "ascii_conformant rt \<and> ascii (ws1 @ s @ ws2) \<and> list_all isWhiteSpace ws1 \<and> list_all isWhiteSpace ws2"
  proof -
    from h have "ascii s" by (simp add: ascii_def)
    with h have "toLowerCase rt (normalizeNFKC rt (ws1 @ s @ ws2)) = ws1 @ toLowerCase rt (normalizeNFKC rt s) @ ws2"
      by (simp add: ascii_conformant_def map_asciiLower_whiteSpace)
    with h show ?thesis
      by (simp only: normalize_def trim_padding)
  qed
  show "normalize rt s = normalize rt t" if "normalizeNFKC rt s = normalizeNFKC rt t"
    using that by (simp add: normalize_def)
  show "generateAllIndexKeys rt secret f s k = generateAllIndexKeys rt secret f t k"
    if "normalize rt s = normalize rt t"
    using that by (simp add: generateAllIndexKeys_def)
  show "keysFor rt secret f op s k = keysFor rt secret f op t k"
    if "normalize rt s = normalize rt t"
    using that by (simp add: keysFor_def)
qed

theorem normalize_properties_witness:
  "normalizeNFKC ascii_runtime (normalize ascii_runtime [74, 111, 115, 233]) = normalize ascii_runtime [74, 111, 115, 233]
   \<and> toLowerCase ascii_runtime (normalize ascii_runtime [74, 111, 115, 233]) = normalize ascii_runtime [74, 111, 115, 233]
   \<and> normalize ascii_runtime [74, 111, 115, 233] = [106, 111, 115, 233]
   \<and> normalize ascii_runtime (normalize ascii_runtime [74, 111, 115, 233]) = normalize ascii_runtime [74, 111, 115, 233]
   \<and> list_all isWhiteSpace [32, 9] \<and> list_all isWhiteSpace [160]
   \<and> toLowerCase ascii_runtime (normalizeNFKC ascii_runtime ([32, 9] @ [74, 111, 115, 233] @ [160]))
       = [32, 9] @ toLowerCase ascii_runtime (normalizeNFKC ascii_runtime [74, 111, 115, 233]) @ [160]
   \<and> normalize ascii_runtime ([32, 9] @ [74, 111, 115, 233] @ [160]) = normalize ascii_runtime [74, 111, 115, 233]
   \<and> toLowerCase ascii_runtime (normalizeNFKC ascii_runtime [74, 111, 115, 233])
       = toLowerCase ascii_runtime (normalizeNFKC ascii_runtime [74, 79, 83, 233])
   \<and> normalize ascii_runtime [74, 111, 115, 233] = normalize ascii_runtime [74, 79, 83, 233]
   \<and> generateAllIndexKeys ascii_runtime (utf16 ''k'') (utf16 ''fn'') [74, 111, 115, 233] 3
       = generateAllIndexKeys ascii_runtime (utf16 ''k'') (utf16 ''fn'') [74, 79, 83, 233] 3
   \<and> ascii_conformant ascii_runtime \<and> ascii (utf16 ''Priya'') \<and> ascii (utf16 ''PRIYA'')
   \<and> ascii (utf16 '' '' @ utf16 ''Priya'' @ utf16 '' '') \<and> list_all isWhiteSpace (utf16 '' '')
   \<and> map asciiLower (utf16 ''Priya'') = map asciiLower (utf16 ''PRIYA'')
   \<and> normalize ascii_runtime (normalize ascii_runtime (utf16 ''Priya'')) = normalize ascii_runtime (utf16 ''Priya'')
   \<and> normalize ascii_runtime (utf16 ''Priya'') = normalize ascii_runtime (utf16 ''PRIYA'')
   \<and> normalize ascii_runtime (utf16 '' '' @ utf16 ''Priya'' @ utf16 '' '') = normalize ascii_runtime (utf16 ''Priya'')"
proof -
  let ?s = "[74, 111, 115, 233] :: js_string"
  let ?t = "[74, 79, 83, 233] :: js_string"
  have n: "normalize ascii_runtime ?s = [106, 111, 115, 233]"
    by (simp add: ascii_eval)
  have a: "normalizeNFKC ascii_runtime (normalize ascii_runtime ?s) = normalize ascii_runtime ?s"
    by (simp add: ascii_runtime_def)
  have b: "toLowerCase ascii_runtime (normalize ascii_runtime ?s) = normalize ascii_runtime ?s"
    unfolding n by (simp add: ascii_runtime_def asciiLower_def)
  have w: "list_all isWhiteSpace [32, 9]" "list_all isWhiteSpace [160]"
    by (simp_all add: isWhiteSpace_def)
  have p: "toLowerCase ascii_runtime (normalizeNFKC ascii_runtime ([32, 9] @ ?s @ [160]))
       = [32, 9] @ toLowerCase ascii_runtime (normalizeNFKC ascii_runtime ?s) @ [160]"
    by (simp add: ascii_runtime_def asciiLower_def)
  have c: "toLowerCase ascii_runtime (normalizeNFKC ascii_runtime ?s)
       = toLowerCase ascii_runtime (normalizeNFKC ascii_runtime ?t)"
    by (simp add: ascii_runtime_def asciiLower_def)
  have d: "ascii (utf16 ''Priya'')" "ascii (utf16 ''PRIYA'')" "ascii (utf16 '' '' @ utf16 ''Priya'' @ utf16 '' '')"
    by (simp_all add: ascii_def utf16_def)
  have e: "list_all isWhiteSpace (utf16 '' '')"
    by (simp add: utf16_def isWhiteSpace_def)
  have g: "map asciiLower (utf16 ''Priya'') = map asciiLower (utf16 ''PRIYA'')"
    by (simp add: utf16_def asciiLower_def)
  from normalize_properties [of ascii_runtime ?s ?t "[32, 9]" "[160]" "[32, 9]" "[160]" "utf16 ''k''" "utf16 ''fn''" 3 "[]"]
    a b w p c
  have r1: "normalize ascii_runtime (normalize ascii_runtime ?s) = normalize ascii_runtime ?s
     \<and> normalize ascii_runtime ([32, 9] @ ?s @ [160]) = normalize ascii_runtime ?s
     \<and> normalize ascii_runtime ?s = normalize ascii_runtime ?t
     \<and> generateAllIndexKeys ascii_runtime (utf16 ''k'') (utf16 ''fn'') ?s 3
       = generateAllIndexKeys ascii_runtime (utf16 ''k'') (utf16 ''fn'') ?t 3"
    by blast
  from normalize_properties [of ascii_runtime "utf16 ''Priya''" "utf16 ''PRIYA''" "[]" "[]" "utf16 '' ''" "utf16 '' ''"
      "utf16 ''k''" "utf16 ''fn''" 3 "[]"]
    ascii_conformant_ascii_runtime d e g
  have r2: "normalize ascii_runtime (normalize ascii_runtime (utf16 ''Priya'')) = normalize ascii_runtime (utf16 ''Priya'')
     \<and> normalize ascii_runtime (utf16 ''Priya'') = normalize ascii_runtime (utf16 ''PRIYA'')
     \<and> normalize ascii_runtime (utf16 '' '' @ utf16 ''Priya'' @ utf16 '' '') = normalize ascii_runtime (utf16 ''Priya'')"
    by blast
  from r1 r2 a b n w p c d e g ascii_conformant_ascii_runtime show ?thesis
    by blast
qed


section \<open>Equivalence of the backends\<close>

subsection \<open>Joining and splitting the token list\<close>








subsection \<open>The simulation: one add, one value, a run\<close>















subsection \<open>The claim\<close>





end
